theory Spec2Isabelle
  imports Complex_Main "HOL-Library.Sublist"
begin

section \<open>The game annotation routes of KnightVision\<close>

text \<open>
  A shallow embedding of \<^verbatim>\<open>backend/app/api/routes/game.py\<close>: the move classifier
  \<^verbatim>\<open>classify_move\<close>, the single-game route \<^verbatim>\<open>annotate_game\<close> and the batch route
  \<^verbatim>\<open>process_unannotated_games\<close>.

  Python floats are modelled as the \<^typ>\<open>real\<close> numbers they denote, with the rounding of
  their subtraction written out, Python integers as \<^typ>\<open>int\<close>, exceptions as
  values of the sum type, and the three collaborators of the routes (the chess rules
  library, the evaluation engine service and the database client) as a record of
  functions that every route takes as its first argument.
\<close>

subsection \<open>\<^verbatim>\<open>classify_move\<close>\<close>

definition classify_move :: "real \<Rightarrow> string" where
  "classify_move evaluation_change =
     (if evaluation_change < -2.0 then ''blunder''
      else if evaluation_change < -1.0 then ''mistake''
      else if evaluation_change < -0.5 then ''inaccuracy''
      else if evaluation_change < 0.1 then ''good''
      else if evaluation_change < 0.5 then ''great''
      else ''excellent'')"

subsection \<open>Data\<close>

text \<open>
  The pydantic model \<^verbatim>\<open>MoveAnnotation\<close> and the dictionary that \<^verbatim>\<open>annotate_game\<close> builds
  for every ply. The dictionary has the key \<^verbatim>\<open>game_id\<close> in addition to the fields of the
  model; validating a dictionary against the model keeps the model's fields only,
  which is \<open>MoveAnnotation.truncate\<close>.
\<close>

record MoveAnnotation =
  move_number :: int
  move_san :: string
  move_uci :: string
  color :: string
  fen_before :: string
  fen_after :: string
  evaluation_before :: real
  evaluation_after :: real
  evaluation_change :: real
  classification :: string
  is_best_move :: bool
  is_book_move :: bool

record annotation = MoveAnnotation +
  game_id :: string

text \<open>The response models; \<open>game_id_r\<close> is the field \<^verbatim>\<open>game_id\<close> of the response.\<close>

record GameAnnotationResponse =
  game_id_r :: string
  total_moves :: int
  annotations :: "MoveAnnotation list"

record BatchAnnotationResponse =
  processed_games :: int
  game_ids :: "string list"

text \<open>
  A row of the table \<^verbatim>\<open>games\<close>, with the columns the routes read: \<open>id_row\<close> is the
  column \<^verbatim>\<open>id\<close>; \<open>pgn\<close> and \<open>moves_only\<close> are \<open>None\<close> when the column is null or
  missing.
\<close>

record game =
  id_row :: string
  user_id :: string
  analyzed :: bool
  pgn :: "string option"
  moves_only :: "string option"

text \<open>
  The dictionary returned by \<^verbatim>\<open>stockfish_service.evaluate_position\<close>, with the two
  keys \<^verbatim>\<open>annotate_game\<close> reads.
\<close>

record position_eval =
  evaluation :: real
  best_move :: "string option"

text \<open>
  Exceptions. \<^verbatim>\<open>HTTPException\<close> (status code, detail) derives from \<^verbatim>\<open>Exception\<close>;
  \<open>Error\<close> stands for every other exception (raised by the engine service or by
  the database client) and carries its message.
\<close>

datatype exn = HTTPException int string | Error string

fun str_nat :: "nat \<Rightarrow> string" where
  "str_nat n =
     (if n < 10 then [''0123456789'' ! n]
      else str_nat (n div 10) @ [''0123456789'' ! (n mod 10)])"

declare str_nat.simps [simp del]

text \<open>\<^verbatim>\<open>str(e)\<close>: an \<^verbatim>\<open>HTTPException\<close> renders as \<^verbatim>\<open>"{status_code}: {detail}"\<close>.\<close>

fun str_exn :: "exn \<Rightarrow> string" where
  "str_exn (HTTPException status_code detail) =
     (if status_code < 0 then ''-'' @ str_nat (nat (- status_code)) else str_nat (nat status_code))
       @ '': '' @ detail"
| "str_exn (Error msg) = msg"

subsection \<open>The collaborators and the state they act on\<close>

text \<open>
  The state of the world outside the routes: the two tables, the number of requests
  sent to the database so far, the positions sent to the engine so far (in order), and
  the messages written by \<^verbatim>\<open>logging.error\<close>.
\<close>

record world =
  games_table :: "game list"
  move_annotations_table :: "annotation list"
  db_requests :: nat
  engine_calls :: "string list"
  error_log :: "string list"

text \<open>
  The collaborators. \<open>'b\<close> is the type of boards and \<open>'m\<close> the type of moves of the
  rules library.
  \<^item> \<open>read_game\<close> is \<^verbatim>\<open>chess.pgn.read_game\<close> on the text: \<open>None\<close> when the text holds
    no game, otherwise the starting board (\<^verbatim>\<open>chess_game.board()\<close>) and the moves of
    \<^verbatim>\<open>chess_game.mainline()\<close>;
  \<^item> \<open>san\<close>, \<open>uci\<close>, \<open>turn\<close> (\<open>True\<close> is \<^verbatim>\<open>chess.WHITE\<close>), \<open>fen\<close> and \<open>push\<close> are the
    operations of the board;
  \<^item> \<open>evaluate_position n p\<close> is the answer of the engine service to its \<open>n\<close>-th call,
    made on the position text \<open>p\<close>: \<open>Inl msg\<close> when the call raises;
  \<^item> \<open>execute_fails n\<close> is \<open>Some msg\<close> when the \<open>n\<close>-th request sent to the database
    raises (the request then has no effect), and \<open>None\<close> when it is carried out.
\<close>

record ('b, 'm) deps =
  read_game :: "string \<Rightarrow> ('b \<times> 'm list) option"
  san :: "'b \<Rightarrow> 'm \<Rightarrow> string"
  uci :: "'m \<Rightarrow> string"
  turn :: "'b \<Rightarrow> bool"
  fen :: "'b \<Rightarrow> string"
  push :: "'b \<Rightarrow> 'm \<Rightarrow> 'b"
  evaluate_position :: "nat \<Rightarrow> string \<Rightarrow> string + position_eval"
  execute_fails :: "nat \<Rightarrow> string option"

text \<open>\<^verbatim>\<open>.execute()\<close> on a query: one request to the database.\<close>

definition execute ::
  "('b, 'm) deps \<Rightarrow> (world \<Rightarrow> 'a \<times> world) \<Rightarrow> world \<Rightarrow> (exn + 'a) \<times> world" where
  "execute d query w =
     (let w1 = w\<lparr>db_requests := Suc (db_requests w)\<rparr> in
      case execute_fails d (db_requests w) of
        Some msg \<Rightarrow> (Inl (Error msg), w1)
      | None \<Rightarrow> (case query w1 of (data, w2) \<Rightarrow> (Inr data, w2)))"

text \<open>\<^verbatim>\<open>table("games").select("*").eq("id", game_id)\<close>\<close>

definition select_game :: "string \<Rightarrow> world \<Rightarrow> game list \<times> world" where
  "select_game gid w = (filter (\<lambda>g. id_row g = gid) (games_table w), w)"

text \<open>
  \<^verbatim>\<open>table("move_annotations").select("*").eq("game_id", game_id).order("move_number")\<close>;
  rows with the same move number keep the order of the table.
\<close>

definition select_annotations :: "string \<Rightarrow> world \<Rightarrow> annotation list \<times> world" where
  "select_annotations gid w =
     (sort_key move_number (filter (\<lambda>a. game_id a = gid) (move_annotations_table w)), w)"

text \<open>\<^verbatim>\<open>table("move_annotations").insert(annotation)\<close>\<close>

definition insert_annotation :: "annotation \<Rightarrow> world \<Rightarrow> unit \<times> world" where
  "insert_annotation a w = ((), w\<lparr>move_annotations_table := move_annotations_table w @ [a]\<rparr>)"

text \<open>\<^verbatim>\<open>table("games").update({"analyzed": True}).eq("id", game_id)\<close>\<close>

definition set_analyzed :: "string \<Rightarrow> game \<Rightarrow> game" where
  "set_analyzed gid g = (if id_row g = gid then g\<lparr>analyzed := True\<rparr> else g)"

definition update_analyzed :: "string \<Rightarrow> world \<Rightarrow> unit \<times> world" where
  "update_analyzed gid w = ((), w\<lparr>games_table := map (set_analyzed gid) (games_table w)\<rparr>)"

text \<open>\<^verbatim>\<open>table("games").select("id").eq("analyzed", False).limit(limit)\<close>\<close>

definition select_unanalyzed :: "nat \<Rightarrow> world \<Rightarrow> string list \<times> world" where
  "select_unanalyzed limit w =
     (map id_row (take limit (filter (\<lambda>g. \<not> analyzed g) (games_table w))), w)"

text \<open>\<^verbatim>\<open>await stockfish_service.evaluate_position(fen)\<close>\<close>

definition evaluate ::
  "('b, 'm) deps \<Rightarrow> string \<Rightarrow> world \<Rightarrow> (exn + position_eval) \<times> world" where
  "evaluate d position w =
     (let w1 = w\<lparr>engine_calls := engine_calls w @ [position]\<rparr> in
      case evaluate_position d (length (engine_calls w)) position of
        Inl msg \<Rightarrow> (Inl (Error msg), w1)
      | Inr result \<Rightarrow> (Inr result, w1))"

text \<open>\<^verbatim>\<open>logging.error(msg)\<close>\<close>

definition logging_error :: "string \<Rightarrow> world \<Rightarrow> world" where
  "logging_error msg w = w\<lparr>error_log := error_log w @ [msg]\<rparr>"

subsection \<open>Subtraction of floats\<close>

text \<open>
  A Python float is an IEEE 754 double, modelled as the real number it denotes. The
  negation of a double is exact; the difference of two doubles is the double nearest
  to their exact difference, the one with the even significand when two are equally
  near. \<open>double_round x\<close> is that double for a real \<open>x\<close>: with \<open>e\<close> the exponent of \<open>x\<close>
  (\<open>2 ^ e \<le> \<bar>x\<bar> < 2 ^ (e + 1)\<close>, and at least \<open>-1022\<close>), the doubles next to \<open>x\<close> are the
  multiples of \<open>2 ^ (e - 52)\<close>. Differences beyond the largest double, which are
  infinite in Python, are outside the model. The thresholds of \<^verbatim>\<open>classify_move\<close> are
  float literals: \<open>-2.0\<close>, \<open>-1.0\<close>, \<open>-0.5\<close> and \<open>0.5\<close> are doubles, and a double is below
  the double \<open>0.1\<close> exactly when it is below the real \<open>0.1\<close> (lemma \<open>float_below_tenth\<close>).
\<close>

definition round_half_even :: "real \<Rightarrow> int" where
  "round_half_even y =
     (let f = \<lfloor>y\<rfloor> in
      if y - of_int f < 1 / 2 then f
      else if 1 / 2 < y - of_int f then f + 1
      else if even f then f else f + 1)"

definition double_round :: "real \<Rightarrow> real" where
  "double_round x =
     (if x = 0 then 0
      else (let e = max \<lfloor>log 2 \<bar>x\<bar>\<rfloor> (- 1022);
                ulp = 2 powr (of_int e - 52)
            in of_int (round_half_even (x / ulp)) * ulp))"

text \<open>The operator \<^verbatim>\<open>-\<close> on two floats.\<close>

definition float_sub :: "real \<Rightarrow> real \<Rightarrow> real" where
  "float_sub x y = double_round (x - y)"

subsection \<open>\<^verbatim>\<open>annotate_game\<close>\<close>

text \<open>
  The annotation of one ply, from the values the loop body has computed before:
  \<open>number\<close>, \<open>san_text\<close>, \<open>uci_text\<close>, \<open>mover\<close>, \<open>fen_b\<close> and \<open>fen_a\<close> are the local
  variables \<^verbatim>\<open>move_number\<close>, \<^verbatim>\<open>move_san\<close>, \<^verbatim>\<open>move_uci\<close>, \<^verbatim>\<open>color\<close>, \<^verbatim>\<open>fen_before\<close> and
  \<^verbatim>\<open>fen_after\<close>.
\<close>

definition annotate_ply ::
  "string \<Rightarrow> int \<Rightarrow> string \<Rightarrow> string \<Rightarrow> string \<Rightarrow> string \<Rightarrow> string
     \<Rightarrow> position_eval \<Rightarrow> position_eval \<Rightarrow> annotation" where
  "annotate_ply gid number san_text uci_text mover fen_b fen_a position_before position_after =
     (let evaluation_before = evaluation position_before;
          evaluation_after = evaluation position_after;
          evaluation_change =
            (if mover = ''black'' then float_sub (- evaluation_after) (- evaluation_before)
             else float_sub evaluation_after evaluation_before);
          classification = classify_move evaluation_change;
          is_best_move = (best_move position_before = Some uci_text)
      in \<lparr>move_number = number,
          move_san = san_text,
          move_uci = uci_text,
          color = mover,
          fen_before = fen_b,
          fen_after = fen_a,
          evaluation_before = evaluation_before,
          evaluation_after = evaluation_after,
          evaluation_change = evaluation_change,
          classification = classification,
          is_best_move = is_best_move,
          is_book_move = False,
          game_id = gid\<rparr>)"

text \<open>
  The loop \<^verbatim>\<open>for node in chess_game.mainline()\<close>: \<open>board\<close> and \<open>number\<close> are the
  loop's variables \<^verbatim>\<open>board\<close> and \<^verbatim>\<open>move_number\<close>, \<open>sofar\<close> is the list
  \<^verbatim>\<open>move_annotations\<close> built so far. An exception of an engine call leaves the loop.
\<close>

fun annotate_mainline ::
  "('b, 'm) deps \<Rightarrow> string \<Rightarrow> 'b \<Rightarrow> int \<Rightarrow> 'm list \<Rightarrow> annotation list \<Rightarrow> world
     \<Rightarrow> (exn + annotation list) \<times> world" where
  "annotate_mainline d gid board number [] sofar w = (Inr sofar, w)"
| "annotate_mainline d gid board number (move # rest) sofar w =
     (let move_san = san d board move;
          move_uci = uci d move;
          color = (if turn d board then ''white'' else ''black'');
          fen_before = fen d board
      in case evaluate d fen_before w of
           (Inl e, w1) \<Rightarrow> (Inl e, w1)
         | (Inr position_before, w1) \<Rightarrow>
             (let board1 = push d board move;
                  fen_after = fen d board1
              in case evaluate d fen_after w1 of
                   (Inl e, w2) \<Rightarrow> (Inl e, w2)
                 | (Inr position_after, w2) \<Rightarrow>
                     annotate_mainline d gid board1
                       (if color = ''black'' then number + 1 else number) rest
                       (sofar @ [annotate_ply gid number move_san move_uci color
                                   fen_before fen_after position_before position_after])
                       w2))"

text \<open>The loop \<^verbatim>\<open>for annotation in move_annotations\<close>: one insert request per annotation.\<close>

fun store_annotations ::
  "('b, 'm) deps \<Rightarrow> annotation list \<Rightarrow> world \<Rightarrow> (exn + unit) \<times> world" where
  "store_annotations d [] w = (Inr (), w)"
| "store_annotations d (a # rest) w =
     (case execute d (insert_annotation a) w of
        (Inl e, w1) \<Rightarrow> (Inl e, w1)
      | (Inr u, w1) \<Rightarrow> store_annotations d rest w1)"

text \<open>\<^verbatim>\<open>game.get("pgn") or game.get("moves_only", "")\<close>; the empty text stands for every
  value that is false in a condition (\<^verbatim>\<open>None\<close> and \<^verbatim>\<open>""\<close>).\<close>

definition pgn_of :: "game \<Rightarrow> string" where
  "pgn_of g =
     (case pgn g of
        Some text \<Rightarrow> if text \<noteq> [] then text else (case moves_only g of Some t \<Rightarrow> t | None \<Rightarrow> [])
      | None \<Rightarrow> (case moves_only g of Some t \<Rightarrow> t | None \<Rightarrow> []))"

text \<open>The part of \<^verbatim>\<open>annotate_game\<close> that runs once the game is known not to be analyzed.\<close>

definition annotate_fresh ::
  "('b, 'm) deps \<Rightarrow> string \<Rightarrow> game \<Rightarrow> world \<Rightarrow> (exn + GameAnnotationResponse) \<times> world" where
  "annotate_fresh d gid g w =
     (let pgn_text = pgn_of g in
      if pgn_text = [] then (Inl (HTTPException 400 ''Game does not contain valid PGN data''), w)
      else case read_game d pgn_text of
          None \<Rightarrow> (Inl (HTTPException 400 ''Invalid PGN format''), w)
        | Some (board, mainline) \<Rightarrow>
            (case annotate_mainline d gid board 1 mainline [] w of
               (Inl e, w1) \<Rightarrow> (Inl e, w1)
             | (Inr move_annotations, w1) \<Rightarrow>
                 (case store_annotations d move_annotations w1 of
                    (Inl e, w2) \<Rightarrow> (Inl e, w2)
                  | (Inr u, w2) \<Rightarrow>
                      (case execute d (update_analyzed gid) w2 of
                         (Inl e, w3) \<Rightarrow> (Inl e, w3)
                       | (Inr u', w3) \<Rightarrow>
                           (Inr \<lparr>game_id_r = gid,
                                 total_moves = int (length move_annotations),
                                 annotations = map MoveAnnotation.truncate move_annotations\<rparr>,
                            w3)))))"

text \<open>The body of the \<^verbatim>\<open>try\<close> statement of \<^verbatim>\<open>annotate_game\<close>; \<open>gid\<close> and \<open>uid\<close> are the
  parameters \<^verbatim>\<open>game_id\<close> and \<^verbatim>\<open>user_id\<close>.\<close>

definition annotate_game_try ::
  "('b, 'm) deps \<Rightarrow> string \<Rightarrow> string \<Rightarrow> world \<Rightarrow> (exn + GameAnnotationResponse) \<times> world" where
  "annotate_game_try d gid uid w =
     (case execute d (select_game gid) w of
        (Inl e, w1) \<Rightarrow> (Inl e, w1)
      | (Inr data, w1) \<Rightarrow>
          (case data of
             [] \<Rightarrow> (Inl (HTTPException 404 ''Game not found''), w1)
           | g # others \<Rightarrow>
               if user_id g \<noteq> uid
               then (Inl (HTTPException 403 ''Unauthorized access to this game''), w1)
               else if analyzed g
               then (case execute d (select_annotations gid) w1 of
                       (Inl e, w2) \<Rightarrow> (Inl e, w2)
                     | (Inr rows, w2) \<Rightarrow>
                         (Inr \<lparr>game_id_r = gid,
                               total_moves = int (length rows),
                               annotations = map MoveAnnotation.truncate rows\<rparr>,
                          w2))
               else annotate_fresh d gid g w1))"

text \<open>
  \<^verbatim>\<open>annotate_game(game_id, user_id)\<close>: the \<^verbatim>\<open>try\<close> body under the handler
  \<^verbatim>\<open>except Exception as e\<close>, which catches every exception of the body, the
  \<^verbatim>\<open>HTTPException\<close>s raised there included.
\<close>

definition annotate_game ::
  "('b, 'm) deps \<Rightarrow> string \<Rightarrow> string \<Rightarrow> world \<Rightarrow> (exn + GameAnnotationResponse) \<times> world" where
  "annotate_game d gid uid w =
     (case annotate_game_try d gid uid w of
        (Inl e, w1) \<Rightarrow>
          (Inl (HTTPException 500 (''Error annotating game: '' @ str_exn e)),
           logging_error (''Error annotating game: '' @ str_exn e) w1)
      | (Inr response, w1) \<Rightarrow> (Inr response, w1))"

subsection \<open>\<^verbatim>\<open>process_unannotated_games\<close>\<close>

text \<open>The loop \<^verbatim>\<open>for game_data in games_response.data\<close>; \<open>processed\<close> is the list
  \<^verbatim>\<open>processed_game_ids\<close>.\<close>

fun process_games ::
  "('b, 'm) deps \<Rightarrow> string \<Rightarrow> string list \<Rightarrow> string list \<Rightarrow> world \<Rightarrow> string list \<times> world" where
  "process_games d uid [] processed w = (processed, w)"
| "process_games d uid (gid # rest) processed w =
     (case annotate_game d gid uid w of
        (Inl e, w1) \<Rightarrow>
          process_games d uid rest processed
            (logging_error (''Error processing game '' @ gid @ '': '' @ str_exn e) w1)
      | (Inr response, w1) \<Rightarrow> process_games d uid rest (processed @ [gid]) w1)"

definition process_unannotated_games_try ::
  "('b, 'm) deps \<Rightarrow> nat \<Rightarrow> string \<Rightarrow> world \<Rightarrow> (exn + BatchAnnotationResponse) \<times> world" where
  "process_unannotated_games_try d limit uid w =
     (case execute d (select_unanalyzed limit) w of
        (Inl e, w1) \<Rightarrow> (Inl e, w1)
      | (Inr data, w1) \<Rightarrow>
          if length data = 0 then (Inr \<lparr>processed_games = 0, game_ids = []\<rparr>, w1)
          else (case process_games d uid data [] w1 of
                  (processed_game_ids, w2) \<Rightarrow>
                    (Inr \<lparr>processed_games = int (length processed_game_ids),
                          game_ids = processed_game_ids\<rparr>, w2)))"

definition process_unannotated_games ::
  "('b, 'm) deps \<Rightarrow> nat \<Rightarrow> string \<Rightarrow> world \<Rightarrow> (exn + BatchAnnotationResponse) \<times> world" where
  "process_unannotated_games d limit uid w =
     (case process_unannotated_games_try d limit uid w of
        (Inl e, w1) \<Rightarrow>
          (Inl (HTTPException 500 (''Error in batch processing: '' @ str_exn e)),
           logging_error (''Error in batch processing: '' @ str_exn e) w1)
      | (Inr response, w1) \<Rightarrow> (Inr response, w1))"

subsection \<open>Notions used in the statements\<close>

text \<open>The row that \<^verbatim>\<open>annotate_game\<close> works on: \<^verbatim>\<open>game_response.data[0]\<close>.\<close>

definition stored_game :: "string \<Rightarrow> world \<Rightarrow> game option" where
  "stored_game gid w =
     (case filter (\<lambda>g. id_row g = gid) (games_table w) of [] \<Rightarrow> None | g # others \<Rightarrow> Some g)"

text \<open>
  The annotations of a move list, given the pair of engine answers (before,
  after) of every ply: what the loop of \<^verbatim>\<open>annotate_game\<close> appends when no engine
  call raises.
\<close>

fun plies ::
  "('b, 'm) deps \<Rightarrow> string \<Rightarrow> 'b \<Rightarrow> int \<Rightarrow> 'm list \<Rightarrow> (position_eval \<times> position_eval) list
     \<Rightarrow> annotation list" where
  "plies d gid board number (move # rest) (answers # others) =
     annotate_ply gid number (san d board move) (uci d move)
         (if turn d board then ''white'' else ''black'')
         (fen d board) (fen d (push d board move)) (fst answers) (snd answers)
       # plies d gid (push d board move) (if turn d board then number else number + 1) rest others"
| "plies d gid board number [] others = []"
| "plies d gid board number (move # rest) [] = []"

text \<open>The engine calls made between two states that raised, by their call numbers.\<close>

definition failed_evaluations :: "('b, 'm) deps \<Rightarrow> world \<Rightarrow> world \<Rightarrow> nat list" where
  "failed_evaluations d w w' =
     filter (\<lambda>n. isl (evaluate_position d n (engine_calls w' ! n)))
       [length (engine_calls w) ..< length (engine_calls w')]"

text \<open>The database requests made between two states that raised, by their numbers.\<close>

definition failed_requests :: "('b, 'm) deps \<Rightarrow> world \<Rightarrow> world \<Rightarrow> nat list" where
  "failed_requests d w w' =
     filter (\<lambda>n. execute_fails d n \<noteq> None) [db_requests w ..< db_requests w']"

text \<open>
  The batch, game by game: \<open>after_game\<close> is the state one iteration of the loop of
  \<^verbatim>\<open>process_unannotated_games\<close> leaves, \<open>game_states\<close> lists the state in which the
  iteration of each candidate starts, and \<open>succeeded\<close> tells whether the call of
  \<^verbatim>\<open>annotate_game\<close> made in that state returns.
\<close>

definition after_game :: "('b, 'm) deps \<Rightarrow> string \<Rightarrow> string \<Rightarrow> world \<Rightarrow> world" where
  "after_game d uid gid w =
     (case annotate_game d gid uid w of
        (Inl e, w1) \<Rightarrow> logging_error (''Error processing game '' @ gid @ '': '' @ str_exn e) w1
      | (Inr response, w1) \<Rightarrow> w1)"

fun game_states :: "('b, 'm) deps \<Rightarrow> string \<Rightarrow> string list \<Rightarrow> world \<Rightarrow> world list" where
  "game_states d uid [] w = []"
| "game_states d uid (gid # rest) w = w # game_states d uid rest (after_game d uid gid w)"

definition succeeded :: "('b, 'm) deps \<Rightarrow> string \<Rightarrow> string \<times> world \<Rightarrow> bool" where
  "succeeded d uid attempt = (\<not> isl (fst (annotate_game d (fst attempt) uid (snd attempt))))"

subsection \<open>Sample data\<close>

text \<open>
  A small instance of the collaborators, for concrete runs. It answers as the rules
  library does on two record texts: \<^verbatim>\<open>1. e4 e5\<close>, a game of two plies from the standard
  starting position, and \<open>sample_setup_record\<close>, a game of one ply whose \<^verbatim>\<open>SetUp\<close> and
  \<^verbatim>\<open>FEN\<close> headers set up the position after \<^verbatim>\<open>1. e4\<close>, with Black to move. A board is a
  position, given by the side to move (\<open>True\<close> for White) and the moves that lead to
  it from the standard starting position; a move is its coordinate notation. The
  position texts of the three positions of these games are the ones \<^verbatim>\<open>board.fen()\<close>
  returns, and the two moves have the notations \<^verbatim>\<open>e4\<close> and \<^verbatim>\<open>e5\<close> that \<^verbatim>\<open>board.san()\<close>
  returns.
  Every other text the instance takes for one that holds no game; the games in the
  sample data have no other text.
\<close>

definition sample_start :: string where
  "sample_start = ''rnbqkbnr/pppppppp/8/8/8/8/PPPPPPPP/RNBQKBNR w KQkq - 0 1''"

definition sample_after_e4 :: string where
  "sample_after_e4 = ''rnbqkbnr/pppppppp/8/8/4P3/8/PPPP1PPP/RNBQKBNR b KQkq - 0 1''"

definition sample_after_e5 :: string where
  "sample_after_e5 = ''rnbqkbnr/pppp1ppp/8/4p3/4P3/8/PPPP1PPP/RNBQKBNR w KQkq - 0 2''"

definition sample_setup_record :: string where
  "sample_setup_record =
     ''[SetUp \"1\"]\<newline>[FEN \"rnbqkbnr/pppppppp/8/8/4P3/8/PPPP1PPP/RNBQKBNR b KQkq - 0 1\"]\<newline>\<newline>1... e5 *''"

definition sample_read_game :: "string \<Rightarrow> ((bool \<times> string list) \<times> string list) option" where
  "sample_read_game text =
     (if text = ''1. e4 e5'' then Some ((True, []), [''e2e4'', ''e7e5''])
      else if text = sample_setup_record then Some ((False, [''e2e4'']), [''e7e5''])
      else None)"

definition sample_san :: "bool \<times> string list \<Rightarrow> string \<Rightarrow> string" where
  "sample_san board move =
     (if move = ''e2e4'' then ''e4'' else if move = ''e7e5'' then ''e5'' else move)"

definition sample_fen :: "bool \<times> string list \<Rightarrow> string" where
  "sample_fen board =
     (if board = (True, []) then sample_start
      else if board = (False, [''e2e4'']) then sample_after_e4
      else if board = (True, [''e2e4'', ''e7e5'']) then sample_after_e5
      else (if fst board then ''w'' else ''b'') @ concat (map (\<lambda>m. '' '' @ m) (snd board)))"

text \<open>The engine of the instance: \<open>0.0\<close> for the starting position, \<open>0.5\<close> after
  \<^verbatim>\<open>1. e4\<close> and the float \<open>0.2\<close> after \<^verbatim>\<open>1. e4 e5\<close>.\<close>

definition sample_engine :: "nat \<Rightarrow> string \<Rightarrow> string + position_eval" where
  "sample_engine n position =
     Inr \<lparr>evaluation = (if position = sample_after_e4 then 0.5
                         else if position = sample_after_e5 then double_round 0.2 else 0.0),
          best_move = Some ''e2e4''\<rparr>"

definition sample_deps ::
  "(nat \<Rightarrow> string \<Rightarrow> string + position_eval) \<Rightarrow> (nat \<Rightarrow> string option)
     \<Rightarrow> (bool \<times> string list, string) deps" where
  "sample_deps engine faults =
     \<lparr>read_game = sample_read_game,
      san = sample_san,
      uci = (\<lambda>move. move),
      turn = fst,
      fen = sample_fen,
      push = (\<lambda>board move. (\<not> fst board, snd board @ [move])),
      evaluate_position = engine,
      execute_fails = faults\<rparr>"

definition sample_games :: "game list" where
  "sample_games =
     [\<lparr>id_row = ''g1'', user_id = ''u1'', analyzed = False,
       pgn = Some ''1. e4 e5'', moves_only = None\<rparr>,
      \<lparr>id_row = ''g2'', user_id = ''u2'', analyzed = False,
       pgn = Some ''1. e4 e5'', moves_only = None\<rparr>,
      \<lparr>id_row = ''g3'', user_id = ''u1'', analyzed = False,
       pgn = Some sample_setup_record, moves_only = None\<rparr>]"

definition sample_world :: world where
  "sample_world =
     \<lparr>games_table = sample_games,
      move_annotations_table = [],
      db_requests = 0,
      engine_calls = [],
      error_log = []\<rparr>"

definition no_faults :: "nat \<Rightarrow> string option" where
  "no_faults n = None"

definition sample_ok :: "(bool \<times> string list, string) deps" where
  "sample_ok = sample_deps sample_engine no_faults"

text \<open>The response to the annotation of game \<open>g1\<close> in the sample world, and the state after it.\<close>

definition sample_response :: GameAnnotationResponse where
  "sample_response =
     \<lparr>game_id_r = ''g1'', total_moves = 2,
      annotations =
        [\<lparr>move_number = 1, move_san = ''e4'', move_uci = ''e2e4'', color = ''white'',
          fen_before = sample_start, fen_after = sample_after_e4,
          evaluation_before = 0, evaluation_after = 0.5, evaluation_change = 0.5,
          classification = ''excellent'', is_best_move = True, is_book_move = False\<rparr>,
         \<lparr>move_number = 1, move_san = ''e5'', move_uci = ''e7e5'', color = ''black'',
          fen_before = sample_after_e4, fen_after = sample_after_e5,
          evaluation_before = 0.5, evaluation_after = double_round 0.2,
          evaluation_change = double_round 0.3,
          classification = ''great'', is_best_move = False, is_book_move = False\<rparr>]\<rparr>"

definition sample_rows :: "annotation list" where
  "sample_rows =
     [\<lparr>move_number = 1, move_san = ''e4'', move_uci = ''e2e4'', color = ''white'',
       fen_before = sample_start, fen_after = sample_after_e4,
       evaluation_before = 0, evaluation_after = 0.5, evaluation_change = 0.5,
       classification = ''excellent'', is_best_move = True, is_book_move = False,
       game_id = ''g1''\<rparr>,
      \<lparr>move_number = 1, move_san = ''e5'', move_uci = ''e7e5'', color = ''black'',
       fen_before = sample_after_e4, fen_after = sample_after_e5,
       evaluation_before = 0.5, evaluation_after = double_round 0.2,
       evaluation_change = double_round 0.3,
       classification = ''great'', is_best_move = False, is_book_move = False,
       game_id = ''g1''\<rparr>]"

definition sample_world_annotated :: world where
  "sample_world_annotated =
     \<lparr>games_table = map (set_analyzed ''g1'') sample_games,
      move_annotations_table = sample_rows,
      db_requests = 4,
      engine_calls = [sample_start, sample_after_e4, sample_after_e4, sample_after_e5],
      error_log = []\<rparr>"

text \<open>Faults, for concrete runs: the third request to the database raises; the third
  call of the engine raises.\<close>

definition third_request_fails :: "nat \<Rightarrow> string option" where
  "third_request_fails n = (if n = 2 then Some ''connection lost'' else None)"

definition third_call_fails :: "nat \<Rightarrow> string \<Rightarrow> string + position_eval" where
  "third_call_fails n position = (if n = 2 then Inl ''engine timeout'' else sample_engine n position)"

definition sample_db_fault :: "(bool \<times> string list, string) deps" where
  "sample_db_fault = sample_deps sample_engine third_request_fails"

definition sample_engine_fault :: "(bool \<times> string list, string) deps" where
  "sample_engine_fault = sample_deps third_call_fails no_faults"

definition sample_world_engine_fault :: world where
  "sample_world_engine_fault =
     \<lparr>games_table = sample_games,
      move_annotations_table = [],
      db_requests = 1,
      engine_calls = [sample_start, sample_after_e4, sample_after_e4],
      error_log = [''Error annotating game: engine timeout'']\<rparr>"

text \<open>
  The attempts of a batch: every candidate the listing request returns, with the
  state in which its iteration starts.
\<close>

definition batch_attempts ::
  "('b, 'm) deps \<Rightarrow> nat \<Rightarrow> string \<Rightarrow> world \<Rightarrow> (string \<times> world) list" where
  "batch_attempts d limit uid w =
     zip (fst (select_unanalyzed limit w))
       (game_states d uid (fst (select_unanalyzed limit w))
          (w\<lparr>db_requests := Suc (db_requests w)\<rparr>))"

text \<open>The state after the batch of the sample world.\<close>

definition sample_world_batch :: world where
  "sample_world_batch =
     \<lparr>games_table = map (set_analyzed ''g3'') (map (set_analyzed ''g1'') sample_games),
      move_annotations_table =
        sample_rows @
        [\<lparr>move_number = 1, move_san = ''e5'', move_uci = ''e7e5'', color = ''black'',
          fen_before = sample_after_e4, fen_after = sample_after_e5,
          evaluation_before = 0.5, evaluation_after = double_round 0.2,
          evaluation_change = double_round 0.3,
          classification = ''great'', is_best_move = False, is_book_move = False,
          game_id = ''g3''\<rparr>],
      db_requests = 9,
      engine_calls =
        [sample_start, sample_after_e4, sample_after_e4, sample_after_e5,
         sample_after_e4, sample_after_e5],
      error_log =
        [''Error annotating game: 403: Unauthorized access to this game'',
         ''Error processing game g2: 500: Error annotating game: 403: Unauthorized access to this game'']\<rparr>"

text \<open>
  Two states of the games table that differ at most in the flags of the games of one
  user, which may have been set.
\<close>

definition flags_set_for :: "string \<Rightarrow> game list \<Rightarrow> game list \<Rightarrow> bool" where
  "flags_set_for uid gs gs' =
     list_all2 (\<lambda>g g'. g' = g \<or> user_id g = uid \<and> g' = g\<lparr>analyzed := True\<rparr>) gs gs'"

section \<open>Auxiliary facts\<close>

subsection \<open>Floats\<close>

lemma double_round_binade:
  assumes "2 powr of_int e \<le> \<bar>x\<bar>" "\<bar>x\<bar> < 2 powr (of_int e + 1)" "- 1022 \<le> e"
  shows "double_round x =
     of_int (round_half_even (x / 2 powr (of_int e - 52))) * 2 powr (of_int e - 52)"
proof -
  have pos: "0 < \<bar>x\<bar>" using assms(1) by (smt (verit) powr_gt_zero)
  then have "\<lfloor>log 2 \<bar>x\<bar>\<rfloor> = e"
    using assms(1,2) by (simp add: floor_log_eq_powr_iff)
  with pos assms(3) show ?thesis by (simp add: double_round_def Let_def max_def)
qed

lemma double_round_half: "double_round (1 / 2) = 1 / 2"
  using double_round_binade [of "-1" "1 / 2"]
  by (simp add: round_half_even_def powr_minus powr_numeral powr_neg_numeral)

lemma double_round_fifth: "double_round (1 / 5) = 3602879701896397 / 18014398509481984"
  using double_round_binade [of "-3" "1 / 5"]
  by (simp add: round_half_even_def powr_minus powr_numeral powr_neg_numeral)

text \<open>A difference that lies halfway between two floats: \<open>1.99 - 3.99\<close> is \<open>-2.0\<close>.\<close>

lemma float_sub_tie: "float_sub (8962163258467287 / 4503599627370496) (2246170314151035 / 562949953421312) = - 2"
  using double_round_binade [of 1 "8962163258467287 / 4503599627370496 - 2246170314151035 / 562949953421312"]
  by (simp add: float_sub_def round_half_even_def powr_minus powr_numeral powr_neg_numeral)


lemma double_round_three_tenths: "double_round (3 / 10) = 5404319552844595 / 18014398509481984"
  using double_round_binade [of "-2" "3 / 10"]
  by (simp add: round_half_even_def powr_minus powr_numeral powr_neg_numeral)

lemma double_round_three_tenths_exact:
  "double_round (5404319552844595 / 18014398509481984) = 5404319552844595 / 18014398509481984"
  using double_round_binade [of "-2" "5404319552844595 / 18014398509481984"]
  by (simp add: round_half_even_def powr_minus powr_numeral powr_neg_numeral)

lemmas double_values =
  double_round_half double_round_fifth double_round_three_tenths double_round_three_tenths_exact

lemma round_half_even_nonpos: "y \<le> 0 \<Longrightarrow> round_half_even y \<le> 0"
  by (auto simp: round_half_even_def Let_def)

lemma round_half_even_nonneg: "0 \<le> y \<Longrightarrow> 0 \<le> round_half_even y"
  by (auto simp: round_half_even_def Let_def)

lemma double_round_nonpos: "x \<le> 0 \<Longrightarrow> double_round x \<le> 0"
proof -
  assume x: "x \<le> 0"
  have "of_int (round_half_even (x / u)) * u \<le> (0::real)" if "0 < u" for u
  proof -
    from x that have "x / u \<le> 0" by (simp add: divide_nonpos_pos)
    then have "round_half_even (x / u) \<le> 0" by (rule round_half_even_nonpos)
    then have "(of_int (round_half_even (x / u)) :: real) \<le> 0" by simp
    with that show ?thesis by (simp add: mult_nonpos_nonneg)
  qed
  then show ?thesis by (simp add: double_round_def Let_def)
qed

lemma double_round_nonneg: "0 \<le> x \<Longrightarrow> 0 \<le> double_round x"
proof -
  assume x: "0 \<le> x"
  have "(0::real) \<le> of_int (round_half_even (x / u)) * u" if "0 < u" for u
  proof -
    from x that have "0 \<le> x / u" by simp
    then have "0 \<le> round_half_even (x / u)" by (rule round_half_even_nonneg)
    then have "(0::real) \<le> of_int (round_half_even (x / u))" by simp
    with that show ?thesis by simp
  qed
  then show ?thesis by (simp add: double_round_def Let_def)
qed

lemma float_sub_positive: "0 < float_sub x y \<Longrightarrow> y < x"
  using double_round_nonpos [of "x - y"] by (auto simp: float_sub_def not_le [symmetric])

lemma float_sub_negative: "float_sub x y < 0 \<Longrightarrow> x < y"
  using double_round_nonneg [of "x - y"] by (auto simp: float_sub_def not_le [symmetric])

lemma float_sub_minus: "float_sub (- x) (- y) = float_sub y x"
  by (simp add: float_sub_def)

lemma round_half_even_le: "z \<le> of_int m \<Longrightarrow> round_half_even z \<le> m"
  unfolding round_half_even_def Let_def by (auto simp: floor_le_iff)

lemma round_half_even_ge: "of_int m \<le> z \<Longrightarrow> m \<le> round_half_even z"
proof -
  assume "of_int m \<le> z"
  then have "m \<le> \<lfloor>z\<rfloor>" by (simp add: le_floor_iff)
  then show ?thesis unfolding round_half_even_def Let_def by auto
qed

lemma double_round_tenth:
  "double_round (1 / 10) = 3602879701896397 / 36028797018963968"
  using double_round_binade [of "-4" "1 / 10"]
  by (simp add: round_half_even_def powr_minus powr_numeral powr_neg_numeral)

text \<open>No float lies between the real \<open>0.1\<close> and the float \<open>0.1\<close>: on floats, the test
  \<^verbatim>\<open>evaluation_change < 0.1\<close> of \<^verbatim>\<open>classify_move\<close> is the comparison with the real \<open>0.1\<close>.\<close>

lemma float_below_tenth:
  "double_round y < double_round (1 / 10) \<longleftrightarrow> double_round y < 1 / 10"
proof
  assume "double_round y < 1 / 10"
  then show "double_round y < double_round (1 / 10)" by (simp add: double_round_tenth)
next
  assume below: "double_round y < double_round (1 / 10)"
  show "double_round y < 1 / 10"
  proof (rule ccontr)
    assume "\<not> double_round y < 1 / 10"
    then have above: "1 / 10 \<le> double_round y" by simp
    have pos: "0 < y"
    proof (rule ccontr)
      assume "\<not> 0 < y"
      then have "double_round y \<le> 0" by (intro double_round_nonpos) simp
      with above show False by simp
    qed
    define l where "l = \<lfloor>log 2 y\<rfloor>"
    define e where "e = max l (- 1022)"
    define u :: real where "u = 2 powr (of_int e - 52)"
    define n where "n = round_half_even (y / u)"
    have u: "0 < u" by (simp add: u_def)
    have x: "double_round y = of_int n * u"
      using pos by (simp add: double_round_def Let_def n_def u_def e_def l_def)
    have lower: "2 powr of_int l \<le> y" and upper: "y < 2 powr (of_int l + 1)"
      using pos floor_log_eq_powr_iff [where b = 2 and x = y and k = l] by (simp_all add: l_def)
    consider "e \<le> - 5" | "e = - 4" | "- 3 \<le> e" by linarith
    then show False
    proof cases
      case 1
      have "of_int l + 1 \<le> (of_int e + 1 :: real)" by (simp add: e_def)
      then have "(2::real) powr (of_int l + 1) \<le> 2 powr (of_int e + 1)"
        by (intro powr_mono) simp_all
      with upper have "y < 2 powr (of_int e + 1)" by (rule less_le_trans)
      also have "\<dots> = 2 ^ 53 * u"
        by (simp add: u_def powr_diff powr_add powr_numeral)
      finally have "y / u < 2 ^ 53" using u by (simp add: pos_divide_less_eq)
      then have "y / u \<le> of_int (2 ^ 53)" by simp
      then have "n \<le> 2 ^ 53" unfolding n_def by (rule round_half_even_le)
      then have "(of_int n :: real) \<le> 2 ^ 53" by (metis of_int_le_iff of_int_numeral of_int_power)
      with u have "of_int n * u \<le> 2 ^ 53 * u" by simp
      also have "\<dots> = 2 powr (of_int e + 1)"
        by (simp add: u_def powr_diff powr_add powr_numeral)
      also have "\<dots> \<le> 2 powr (- 4)"
        using 1 by (intro powr_mono) simp_all
      also have "\<dots> < 1 / 10" by (simp add: powr_neg_numeral)
      finally show False using above x by simp
    next
      case 2
      then have "u = 1 / 2 ^ 56" by (simp add: u_def powr_neg_numeral)
      with x have x': "double_round y = of_int n / 2 ^ 56" by simp
      from above x' have "(7205759403792793 :: real) < of_int n" by simp
      then have "7205759403792793 < n" by linarith
      then have "7205759403792794 \<le> n" by simp
      then have "(7205759403792794 :: real) \<le> of_int n" by linarith
      with below x' show False by (simp add: double_round_tenth)
    next
      case 3
      then have el: "e = l" by (auto simp: e_def max_def)
      have "2 ^ 52 * u = 2 powr of_int e"
        by (simp add: u_def powr_diff powr_numeral)
      with lower el have "2 ^ 52 * u \<le> y" by simp
      then have "of_int (2 ^ 52) \<le> y / u" using u by (simp add: pos_le_divide_eq)
      then have "2 ^ 52 \<le> n" unfolding n_def by (rule round_half_even_ge)
      then have "(2 ^ 52 :: real) \<le> of_int n" by (metis of_int_le_iff of_int_numeral of_int_power)
      with u have "2 ^ 52 * u \<le> of_int n * u" by simp
      moreover have "2 ^ 52 * u = 2 powr of_int e"
        by (simp add: u_def powr_diff powr_numeral)
      moreover have "(2::real) powr (- 3) \<le> 2 powr of_int e"
        using 3 by (intro powr_mono) simp_all
      moreover have "(2::real) powr (- 3) = 1 / 8" by (simp add: powr_neg_numeral)
      ultimately have "1 / 8 \<le> double_round y" using x by simp
      with below show False by (simp add: double_round_tenth)
    qed
  qed
qed

subsection \<open>Requests and engine calls\<close>

lemma execute_fault:
  "execute_fails d (db_requests w) = Some msg \<Longrightarrow>
     execute d query w = (Inl (Error msg), w\<lparr>db_requests := Suc (db_requests w)\<rparr>)"
  by (simp add: execute_def)

lemma execute_done:
  "execute_fails d (db_requests w) = None \<Longrightarrow>
     execute d query w =
       (Inr (fst (query (w\<lparr>db_requests := Suc (db_requests w)\<rparr>))),
        snd (query (w\<lparr>db_requests := Suc (db_requests w)\<rparr>)))"
  by (simp add: execute_def split: prod.splits)

lemma failed_requests_same [simp]: "db_requests w' = db_requests w \<Longrightarrow> failed_requests d w w' = []"
  by (simp add: failed_requests_def)

lemma failed_requests_append:
  "db_requests w \<le> db_requests w1 \<Longrightarrow> db_requests w1 \<le> db_requests w2 \<Longrightarrow>
     failed_requests d w w2 = failed_requests d w w1 @ failed_requests d w1 w2"
proof -
  assume "db_requests w \<le> db_requests w1" "db_requests w1 \<le> db_requests w2"
  then have "[db_requests w ..< db_requests w2] =
      [db_requests w ..< db_requests w1] @ [db_requests w1 ..< db_requests w2]"
    by (metis le_Suc_ex upt_add_eq_append)
  then show ?thesis by (simp add: failed_requests_def)
qed

lemma failed_requests_step:
  "db_requests w1 = Suc (db_requests w) \<Longrightarrow>
     failed_requests d w w1 = (if execute_fails d (db_requests w) \<noteq> None then [db_requests w] else [])"
  by (simp add: failed_requests_def)

lemma failed_evaluations_same [simp]:
  "engine_calls w' = engine_calls w \<Longrightarrow> failed_evaluations d w w' = []"
  by (simp add: failed_evaluations_def)

lemma failed_evaluations_append:
  assumes "prefix (engine_calls w) (engine_calls w1)" "prefix (engine_calls w1) (engine_calls w2)"
  shows "failed_evaluations d w w2 = failed_evaluations d w w1 @ failed_evaluations d w1 w2"
proof -
  from assms have le: "length (engine_calls w) \<le> length (engine_calls w1)"
      "length (engine_calls w1) \<le> length (engine_calls w2)"
    by (simp_all add: prefix_length_le)
  then have split: "[length (engine_calls w) ..< length (engine_calls w2)] =
      [length (engine_calls w) ..< length (engine_calls w1)]
        @ [length (engine_calls w1) ..< length (engine_calls w2)]"
    by (metis le_Suc_ex upt_add_eq_append)
  have same: "engine_calls w2 ! n = engine_calls w1 ! n" if "n < length (engine_calls w1)" for n
    using assms(2) that by (auto simp: prefix_def nth_append)
  have "filter (\<lambda>n. isl (evaluate_position d n (engine_calls w2 ! n)))
          [length (engine_calls w) ..< length (engine_calls w1)] =
        filter (\<lambda>n. isl (evaluate_position d n (engine_calls w1 ! n)))
          [length (engine_calls w) ..< length (engine_calls w1)]"
    by (rule filter_cong) (simp_all add: same)
  with split show ?thesis by (simp add: failed_evaluations_def)
qed

lemma evaluate_world:
  "snd (evaluate d p w) = w\<lparr>engine_calls := engine_calls w @ [p]\<rparr>"
  by (simp add: evaluate_def Let_def split: sum.splits)

lemma evaluate_result:
  "fst (evaluate d p w) =
     (case evaluate_position d (length (engine_calls w)) p of
        Inl msg \<Rightarrow> Inl (Error msg) | Inr x \<Rightarrow> Inr x)"
  by (simp add: evaluate_def Let_def split: sum.splits)

lemma evaluate_failed:
  "failed_evaluations d w (snd (evaluate d p w)) =
     (if isl (fst (evaluate d p w)) then [length (engine_calls w)] else [])"
  by (simp add: evaluate_world evaluate_result failed_evaluations_def split: sum.splits)

lemma annotate_mainline_frame:
  "annotate_mainline d gid board number moves sofar w = (r, w') \<Longrightarrow>
     games_table w' = games_table w \<and> move_annotations_table w' = move_annotations_table w \<and>
     db_requests w' = db_requests w \<and> error_log w' = error_log w \<and>
     prefix (engine_calls w) (engine_calls w')"
proof (induction moves arbitrary: board number sofar w)
  case Nil
  then show ?case by auto
next
  case (Cons move rest)
  let ?w1 = "snd (evaluate d (fen d board) w)"
  let ?w2 = "snd (evaluate d (fen d (push d board move)) ?w1)"
  show ?case
  proof (cases "fst (evaluate d (fen d board) w)")
    case (Inl e)
    with Cons.prems have "w' = ?w1"
      by (auto simp: Let_def split: prod.splits sum.splits)
    then show ?thesis by (simp add: evaluate_world)
  next
    case (Inr pb)
    note first = this
    show ?thesis
    proof (cases "fst (evaluate d (fen d (push d board move)) ?w1)")
      case (Inl e)
      with first Cons.prems have "w' = ?w2"
        by (auto simp: Let_def split: prod.splits sum.splits)
      then show ?thesis by (simp add: evaluate_world)
    next
      case (Inr pa)
      with first Cons.prems obtain n s where
        "annotate_mainline d gid (push d board move) n rest s ?w2 = (r, w')"
        by (auto simp: Let_def split: prod.splits sum.splits)
      from Cons.IH [OF this] show ?thesis
        by (auto simp: evaluate_world prefix_def)
    qed
  qed
qed


lemma annotate_mainline_outcome:
  "annotate_mainline d gid board number moves sofar w = (r, w') \<Longrightarrow>
     (case r of
        Inl e \<Rightarrow> failed_evaluations d w w' \<noteq> []
      | Inr anns \<Rightarrow> failed_evaluations d w w' = [] \<and>
          (\<exists>answers. length answers = length moves \<and>
             anns = sofar @ plies d gid board number moves answers))"
proof (induction moves arbitrary: board number sofar w)
  case Nil
  then show ?case by auto
next
  case (Cons move rest)
  let ?w1 = "snd (evaluate d (fen d board) w)"
  let ?w2 = "snd (evaluate d (fen d (push d board move)) ?w1)"
  have p1: "prefix (engine_calls w) (engine_calls ?w1)"
    and p2: "prefix (engine_calls ?w1) (engine_calls ?w2)"
    by (simp_all add: evaluate_world)
  show ?case
  proof (cases "fst (evaluate d (fen d board) w)")
    case (Inl e)
    with Cons.prems have "w' = ?w1" "r = Inl e"
      by (auto simp: Let_def split: prod.splits sum.splits)
    with Inl show ?thesis by (simp add: evaluate_failed)
  next
    case (Inr pb)
    note first = this
    then have f1: "failed_evaluations d w ?w1 = []" by (simp add: evaluate_failed)
    show ?thesis
    proof (cases "fst (evaluate d (fen d (push d board move)) ?w1)")
      case (Inl e)
      with first Cons.prems have "w' = ?w2" "r = Inl e"
        by (auto simp: Let_def split: prod.splits sum.splits)
      with Inl show ?thesis
        by (simp add: failed_evaluations_append [OF p1 p2] evaluate_failed)
    next
      case (Inr pa)
      then have f2: "failed_evaluations d ?w1 ?w2 = []" by (simp add: evaluate_failed)
      let ?a = "annotate_ply gid number (san d board move) (uci d move)
                  (if turn d board then ''white'' else ''black'')
                  (fen d board) (fen d (push d board move)) pb pa"
      from Inr first Cons.prems have rec:
        "annotate_mainline d gid (push d board move)
           (if turn d board then number else number + 1) rest (sofar @ [?a]) ?w2 = (r, w')"
        by (auto simp: Let_def split: prod.splits sum.splits)
      from annotate_mainline_frame [OF rec] have p3: "prefix (engine_calls ?w2) (engine_calls w')"
        by simp
      have p12: "prefix (engine_calls w) (engine_calls ?w2)"
        using p1 p2 by (rule prefix_order.trans)
      have all: "failed_evaluations d w w' = failed_evaluations d ?w2 w'"
        by (simp add: failed_evaluations_append [OF p12 p3]
              failed_evaluations_append [OF p1 p2] f1 f2)
      show ?thesis
      proof (cases r)
        case (Inl e)
        with Cons.IH [OF rec] all show ?thesis by simp
      next
        case (Inr anns)
        with Cons.IH [OF rec] obtain answers where
          "failed_evaluations d ?w2 w' = []" "length answers = length rest"
          "anns = (sofar @ [?a]) @ plies d gid (push d board move)
                     (if turn d board then number else number + 1) rest answers"
          by auto
        then have "length ((pb, pa) # answers) = length (move # rest) \<and>
            anns = sofar @ plies d gid board number (move # rest) ((pb, pa) # answers)"
          by simp
        then have "\<exists>answers'. length answers' = length (move # rest) \<and>
            anns = sofar @ plies d gid board number (move # rest) answers'"
          by (rule exI)
        with Inr all \<open>failed_evaluations d ?w2 w' = []\<close> show ?thesis
          by simp
      qed
    qed
  qed
qed

lemma store_annotations_shape:
  "store_annotations d anns w = (r, w') \<Longrightarrow>
     games_table w' = games_table w \<and> engine_calls w' = engine_calls w \<and>
     error_log w' = error_log w \<and> db_requests w \<le> db_requests w' \<and>
     (case r of
        Inl e \<Rightarrow> failed_requests d w w' \<noteq> [] \<and>
          (\<exists>k<length anns. move_annotations_table w' = move_annotations_table w @ take k anns)
      | Inr u \<Rightarrow> failed_requests d w w' = [] \<and>
          move_annotations_table w' = move_annotations_table w @ anns)"
proof (induction anns arbitrary: w)
  case Nil
  then show ?case by auto
next
  case (Cons a rest)
  let ?w0 = "w\<lparr>db_requests := Suc (db_requests w)\<rparr>"
  show ?case
  proof (cases "execute_fails d (db_requests w)")
    case (Some msg)
    with Cons.prems have "r = Inl (Error msg)" "w' = ?w0"
      by (simp_all add: execute_fault)
    with Some show ?thesis by (auto simp: failed_requests_step)
  next
    case None
    let ?w1 = "?w0\<lparr>move_annotations_table := move_annotations_table w @ [a]\<rparr>"
    from None Cons.prems have rec: "store_annotations d rest ?w1 = (r, w')"
      by (simp add: execute_done insert_annotation_def)
    note ih = Cons.IH [OF rec]
    have first: "failed_requests d w ?w1 = []"
      using None by (simp add: failed_requests_step)
    from ih have "db_requests ?w1 \<le> db_requests w'" by blast
    then have split: "failed_requests d w w' = failed_requests d ?w1 w'"
      using failed_requests_append [of w ?w1 w' d] first by simp
    show ?thesis
    proof (cases r)
      case (Inl e)
      with ih obtain k where "k < length rest"
        "move_annotations_table w' = move_annotations_table ?w1 @ take k rest"
        by auto
      then have "Suc k < length (a # rest) \<and>
          move_annotations_table w' = move_annotations_table w @ take (Suc k) (a # rest)"
        by simp
      then have "\<exists>k<length (a # rest).
          move_annotations_table w' = move_annotations_table w @ take k (a # rest)"
        by (rule exI)
      moreover from ih have "db_requests w \<le> db_requests w'" by simp
      ultimately show ?thesis using Inl ih split by simp
    next
      case (Inr u)
      with ih split show ?thesis by auto
    qed
  qed
qed


lemma length_plies:
  "length answers = length moves \<Longrightarrow> length (plies d gid board number moves answers) = length moves"
  by (induction d gid board number moves answers rule: plies.induct) simp_all

text \<open>The outcomes of the part of \<^verbatim>\<open>annotate_game\<close> that annotates a game afresh.\<close>

lemma annotate_fresh_shape:
  assumes run: "annotate_fresh d gid g w = (r, w')"
  shows "prefix (engine_calls w) (engine_calls w') \<and> db_requests w \<le> db_requests w' \<and>
     error_log w' = error_log w \<and>
     (case r of
        Inl e \<Rightarrow> games_table w' = games_table w \<and>
          (move_annotations_table w' = move_annotations_table w \<and> failed_requests d w w' = [] \<or>
           failed_evaluations d w w' = [] \<and> failed_requests d w w' \<noteq> [] \<and>
           (\<exists>board mainline answers k.
              read_game d (pgn_of g) = Some (board, mainline) \<and>
              length answers = length mainline \<and> k \<le> length mainline \<and>
              move_annotations_table w' =
                move_annotations_table w @ take k (plies d gid board 1 mainline answers)))
      | Inr response \<Rightarrow>
          failed_evaluations d w w' = [] \<and> failed_requests d w w' = [] \<and>
          games_table w' = map (set_analyzed gid) (games_table w) \<and>
          (\<exists>board mainline answers.
             read_game d (pgn_of g) = Some (board, mainline) \<and>
             length answers = length mainline \<and>
             move_annotations_table w' =
               move_annotations_table w @ plies d gid board 1 mainline answers \<and>
             response = \<lparr>game_id_r = gid, total_moves = int (length mainline),
               annotations = map MoveAnnotation.truncate (plies d gid board 1 mainline answers)\<rparr>))"
proof (cases "pgn_of g = []")
  case True
  with run show ?thesis by (auto simp: annotate_fresh_def)
next
  case nonempty: False
  show ?thesis
  proof (cases "read_game d (pgn_of g)")
    case None
    with run nonempty show ?thesis by (auto simp: annotate_fresh_def)
  next
    case (Some parsed)
    obtain board mainline where parsed: "parsed = (board, mainline)" by (cases parsed)
    obtain r1 w1 where loop: "annotate_mainline d gid board 1 mainline [] w = (r1, w1)"
      by (cases "annotate_mainline d gid board 1 mainline [] w")
    note frame1 = annotate_mainline_frame [OF loop]
    note out1 = annotate_mainline_outcome [OF loop]
    show ?thesis
    proof (cases r1)
      case (Inl e)
      with run nonempty Some parsed loop have "r = Inl e" "w' = w1"
        by (simp_all add: annotate_fresh_def)
      with frame1 show ?thesis by simp
    next
      case (Inr anns)
      with out1 obtain answers where
        ok1: "failed_evaluations d w w1 = []" and
        len: "length answers = length mainline" and
        anns: "anns = plies d gid board 1 mainline answers"
        by auto
      obtain r2 w2 where store: "store_annotations d anns w1 = (r2, w2)"
        by (cases "store_annotations d anns w1")
      note shape2 = store_annotations_shape [OF store]
      have calls2: "engine_calls w2 = engine_calls w1" using shape2 by simp
      have ev2: "failed_evaluations d w w2 = []"
        using ok1 calls2 by (simp add: failed_evaluations_def)
      have rq2: "failed_requests d w w2 = failed_requests d w1 w2"
        using frame1 by (simp add: failed_requests_def)
      show ?thesis
      proof (cases r2)
        case (Inl e)
        with run nonempty Some parsed loop Inr store have res: "r = Inl e" "w' = w2"
          by (simp_all add: annotate_fresh_def)
        from Inl shape2 obtain k where k: "k < length anns"
          "move_annotations_table w2 = move_annotations_table w1 @ take k anns"
          by auto
        have "read_game d (pgn_of g) = Some (board, mainline) \<and>
              length answers = length mainline \<and> k \<le> length mainline \<and>
              move_annotations_table w2 =
                move_annotations_table w @ take k (plies d gid board 1 mainline answers)"
          using k frame1 Some parsed len anns by (simp add: length_plies)
        then have "\<exists>board mainline answers k.
              read_game d (pgn_of g) = Some (board, mainline) \<and>
              length answers = length mainline \<and> k \<le> length mainline \<and>
              move_annotations_table w2 =
                move_annotations_table w @ take k (plies d gid board 1 mainline answers)"
          by blast
        moreover have "failed_requests d w w2 \<noteq> []" using Inl shape2 rq2 by simp
        moreover have "prefix (engine_calls w) (engine_calls w2)" using frame1 calls2 by simp
        moreover have "db_requests w \<le> db_requests w2" using frame1 shape2 by simp
        moreover have "error_log w2 = error_log w" "games_table w2 = games_table w"
          using frame1 shape2 by simp_all
        ultimately show ?thesis using res ev2 by simp
      next
        case ok2: (Inr u)
        with shape2 have rq: "failed_requests d w1 w2 = []"
          and rows: "move_annotations_table w2 = move_annotations_table w1 @ anns"
          by simp_all
        let ?w2 = "w2\<lparr>db_requests := Suc (db_requests w2)\<rparr>"
        have le12: "db_requests w \<le> db_requests w2" using frame1 shape2 by simp
        show ?thesis
        proof (cases "execute_fails d (db_requests w2)")
          case (Some msg)
          with run nonempty \<open>read_game d (pgn_of g) = Some parsed\<close> parsed loop Inr store ok2
          have res: "r = Inl (Error msg)" "w' = ?w2"
            by (simp_all add: annotate_fresh_def execute_fault)
          have "failed_requests d w ?w2 = failed_requests d w w2 @ failed_requests d w2 ?w2"
            using le12 by (intro failed_requests_append) simp_all
          with Some have fr: "failed_requests d w ?w2 \<noteq> []"
            by (simp add: failed_requests_step)
          have "read_game d (pgn_of g) = Some (board, mainline) \<and>
              length answers = length mainline \<and> length mainline \<le> length mainline \<and>
              move_annotations_table ?w2 =
                move_annotations_table w @
                  take (length mainline) (plies d gid board 1 mainline answers)"
            using rows frame1 \<open>read_game d (pgn_of g) = Some parsed\<close> parsed len anns
            by (simp add: length_plies)
          then have "\<exists>board mainline answers k.
              read_game d (pgn_of g) = Some (board, mainline) \<and>
              length answers = length mainline \<and> k \<le> length mainline \<and>
              move_annotations_table ?w2 =
                move_annotations_table w @ take k (plies d gid board 1 mainline answers)"
            by blast
          moreover have "failed_evaluations d w ?w2 = []"
            using ev2 by (simp add: failed_evaluations_def)
          moreover have "prefix (engine_calls w) (engine_calls ?w2)" using frame1 calls2 by simp
          moreover have "error_log ?w2 = error_log w" "games_table ?w2 = games_table w"
            using frame1 shape2 by simp_all
          ultimately show ?thesis using res fr le12 by simp
        next
          case None
          let ?w3 = "?w2\<lparr>games_table := map (set_analyzed gid) (games_table w2)\<rparr>"
          from None run nonempty \<open>read_game d (pgn_of g) = Some parsed\<close> parsed loop Inr store ok2
          have res: "r = Inr \<lparr>game_id_r = gid, total_moves = int (length anns),
                annotations = map MoveAnnotation.truncate anns\<rparr>" "w' = ?w3"
            by (simp_all add: annotate_fresh_def execute_done update_analyzed_def)
          have "failed_requests d w ?w3 = failed_requests d w w2 @ failed_requests d w2 ?w3"
            using le12 by (intro failed_requests_append) simp_all
          with None rq rq2 have fr: "failed_requests d w ?w3 = []"
            by (simp add: failed_requests_step)
          have "read_game d (pgn_of g) = Some (board, mainline) \<and>
             length answers = length mainline \<and>
             move_annotations_table ?w3 =
               move_annotations_table w @ plies d gid board 1 mainline answers \<and>
             \<lparr>game_id_r = gid, total_moves = int (length anns),
                annotations = map MoveAnnotation.truncate anns\<rparr> =
             \<lparr>game_id_r = gid, total_moves = int (length mainline),
               annotations = map MoveAnnotation.truncate (plies d gid board 1 mainline answers)\<rparr>"
            using rows frame1 \<open>read_game d (pgn_of g) = Some parsed\<close> parsed len anns
            by (simp add: length_plies)
          then have "\<exists>board mainline answers.
             read_game d (pgn_of g) = Some (board, mainline) \<and>
             length answers = length mainline \<and>
             move_annotations_table ?w3 =
               move_annotations_table w @ plies d gid board 1 mainline answers \<and>
             \<lparr>game_id_r = gid, total_moves = int (length anns),
                annotations = map MoveAnnotation.truncate anns\<rparr> =
             \<lparr>game_id_r = gid, total_moves = int (length mainline),
               annotations = map MoveAnnotation.truncate (plies d gid board 1 mainline answers)\<rparr>"
            by blast
          moreover have "failed_evaluations d w ?w3 = []"
            using ev2 by (simp add: failed_evaluations_def)
          moreover have "prefix (engine_calls w) (engine_calls ?w3)" using frame1 calls2 by simp
          moreover have "error_log ?w3 = error_log w"
            "games_table ?w3 = map (set_analyzed gid) (games_table w)"
            using frame1 shape2 by simp_all
          ultimately show ?thesis using res fr le12 by simp
        qed
      qed
    qed
  qed
qed

lemma stored_game_mem:
  "stored_game gid w = Some g \<Longrightarrow> g \<in> set (games_table w) \<and> id_row g = gid"
proof -
  assume "stored_game gid w = Some g"
  then obtain others where "filter (\<lambda>g. id_row g = gid) (games_table w) = g # others"
    by (auto simp: stored_game_def split: list.splits)
  then have "g \<in> set (filter (\<lambda>g. id_row g = gid) (games_table w))" by simp
  then show ?thesis by simp
qed

text \<open>The body of the \<^verbatim>\<open>try\<close> statement, by the outcome of its first request.\<close>

lemma annotate_game_try_eq:
  "annotate_game_try d gid uid w =
     (case execute_fails d (db_requests w) of
        Some msg \<Rightarrow> (Inl (Error msg), w\<lparr>db_requests := Suc (db_requests w)\<rparr>)
      | None \<Rightarrow>
         (case stored_game gid w of
            None \<Rightarrow> (Inl (HTTPException 404 ''Game not found''),
                      w\<lparr>db_requests := Suc (db_requests w)\<rparr>)
          | Some g \<Rightarrow>
              if user_id g \<noteq> uid
              then (Inl (HTTPException 403 ''Unauthorized access to this game''),
                    w\<lparr>db_requests := Suc (db_requests w)\<rparr>)
              else if analyzed g
              then (case execute_fails d (Suc (db_requests w)) of
                      Some msg \<Rightarrow>
                        (Inl (Error msg), w\<lparr>db_requests := Suc (Suc (db_requests w))\<rparr>)
                    | None \<Rightarrow>
                        (Inr \<lparr>game_id_r = gid,
                              total_moves = int (length (fst (select_annotations gid w))),
                              annotations =
                                map MoveAnnotation.truncate (fst (select_annotations gid w))\<rparr>,
                         w\<lparr>db_requests := Suc (Suc (db_requests w))\<rparr>))
              else annotate_fresh d gid g (w\<lparr>db_requests := Suc (db_requests w)\<rparr>)))"
  by (simp add: annotate_game_try_def execute_def select_game_def stored_game_def
        select_annotations_def Let_def split: option.splits list.splits)

lemma annotate_game_eq:
  "annotate_game d gid uid w =
     (case fst (annotate_game_try d gid uid w) of
        Inl e \<Rightarrow>
          (Inl (HTTPException 500 (''Error annotating game: '' @ str_exn e)),
           (snd (annotate_game_try d gid uid w))
             \<lparr>error_log := error_log (snd (annotate_game_try d gid uid w))
                @ [''Error annotating game: '' @ str_exn e]\<rparr>)
      | Inr response \<Rightarrow> (Inr response, snd (annotate_game_try d gid uid w)))"
  by (simp add: annotate_game_def logging_error_def split: prod.splits sum.splits)

text \<open>The outcomes of the body of the \<^verbatim>\<open>try\<close> statement.\<close>

lemma annotate_game_try_shape:
  assumes run: "annotate_game_try d gid uid w = (r, w')"
  shows "prefix (engine_calls w) (engine_calls w') \<and> db_requests w \<le> db_requests w' \<and>
     error_log w' = error_log w \<and>
     (case r of
        Inl e \<Rightarrow> games_table w' = games_table w \<and>
          (move_annotations_table w' = move_annotations_table w \<or>
           failed_evaluations d w w' = [] \<and> failed_requests d w w' \<noteq> [] \<and>
           (\<exists>g board mainline answers k.
              stored_game gid w = Some g \<and> user_id g = uid \<and> \<not> analyzed g \<and>
              read_game d (pgn_of g) = Some (board, mainline) \<and>
              length answers = length mainline \<and> k \<le> length mainline \<and>
              move_annotations_table w' =
                move_annotations_table w @ take k (plies d gid board 1 mainline answers)))
      | Inr response \<Rightarrow>
          failed_evaluations d w w' = [] \<and> failed_requests d w w' = [] \<and>
          (\<exists>g. stored_game gid w = Some g \<and> user_id g = uid \<and>
             (if analyzed g
              then games_table w' = games_table w \<and>
                   move_annotations_table w' = move_annotations_table w \<and>
                   engine_calls w' = engine_calls w \<and>
                   response = \<lparr>game_id_r = gid,
                     total_moves = int (length (fst (select_annotations gid w))),
                     annotations = map MoveAnnotation.truncate (fst (select_annotations gid w))\<rparr>
              else games_table w' = map (set_analyzed gid) (games_table w) \<and>
                   (\<exists>board mainline answers.
                      read_game d (pgn_of g) = Some (board, mainline) \<and>
                      length answers = length mainline \<and>
                      move_annotations_table w' =
                        move_annotations_table w @ plies d gid board 1 mainline answers \<and>
                      response = \<lparr>game_id_r = gid, total_moves = int (length mainline),
                        annotations =
                          map MoveAnnotation.truncate (plies d gid board 1 mainline answers)\<rparr>))))"
proof (cases "execute_fails d (db_requests w)")
  case (Some msg)
  with run show ?thesis by (auto simp: annotate_game_try_eq)
next
  case None
  let ?w1 = "w\<lparr>db_requests := Suc (db_requests w)\<rparr>"
  have step: "failed_requests d w ?w1 = []" using None by (simp add: failed_requests_step)
  show ?thesis
  proof (cases "stored_game gid w")
    case no_game: None
    with run None show ?thesis by (auto simp: annotate_game_try_eq)
  next
    case (Some g)
    show ?thesis
    proof (cases "user_id g = uid")
      case False
      with run None Some show ?thesis by (auto simp: annotate_game_try_eq)
    next
      case own: True
      show ?thesis
      proof (cases "analyzed g")
        case True
        show ?thesis
        proof (cases "execute_fails d (Suc (db_requests w))")
          case fault: (Some msg)
          with run None Some own True show ?thesis by (auto simp: annotate_game_try_eq)
        next
          case ok: None
          let ?w2 = "w\<lparr>db_requests := Suc (Suc (db_requests w))\<rparr>"
          from run None Some own True ok have res: "w' = ?w2"
            "r = Inr \<lparr>game_id_r = gid,
                     total_moves = int (length (fst (select_annotations gid w))),
                     annotations = map MoveAnnotation.truncate (fst (select_annotations gid w))\<rparr>"
            by (simp_all add: annotate_game_try_eq)
          have "failed_requests d w ?w2 = []"
            using None ok by (simp add: failed_requests_def upt_rec)
          with res Some own True show ?thesis by simp
        qed
      next
        case False
        with run None Some own have fresh: "annotate_fresh d gid g ?w1 = (r, w')"
          by (simp add: annotate_game_try_eq)
        note shape = annotate_fresh_shape [OF fresh]
        have le: "db_requests ?w1 \<le> db_requests w'" using shape by blast
        have rq: "failed_requests d w w' = failed_requests d ?w1 w'"
          using failed_requests_append [of w ?w1 w' d] le step by simp
        have ev: "failed_evaluations d w w' = failed_evaluations d ?w1 w'"
          by (simp add: failed_evaluations_def)
        show ?thesis
        proof (cases r)
          case (Inl e)
          with shape have
            "move_annotations_table w' = move_annotations_table w \<or>
             failed_evaluations d w w' = [] \<and> failed_requests d w w' \<noteq> [] \<and>
             (\<exists>board mainline answers k.
                read_game d (pgn_of g) = Some (board, mainline) \<and>
                length answers = length mainline \<and> k \<le> length mainline \<and>
                move_annotations_table w' =
                  move_annotations_table w @ take k (plies d gid board 1 mainline answers))"
            unfolding rq ev by auto
          then have
            "move_annotations_table w' = move_annotations_table w \<or>
             failed_evaluations d w w' = [] \<and> failed_requests d w w' \<noteq> [] \<and>
             (\<exists>g board mainline answers k.
                stored_game gid w = Some g \<and> user_id g = uid \<and> \<not> analyzed g \<and>
                read_game d (pgn_of g) = Some (board, mainline) \<and>
                length answers = length mainline \<and> k \<le> length mainline \<and>
                move_annotations_table w' =
                  move_annotations_table w @ take k (plies d gid board 1 mainline answers))"
            using Some own False by blast
          moreover from shape Inl have "games_table w' = games_table w"
            "prefix (engine_calls w) (engine_calls w')" "db_requests w \<le> db_requests w'"
            "error_log w' = error_log w"
            by simp_all
          ultimately show ?thesis using Inl by simp
        next
          case (Inr response)
          with shape have
            "failed_evaluations d w w' = []" "failed_requests d w w' = []"
            "games_table w' = map (set_analyzed gid) (games_table w)"
            "\<exists>board mainline answers.
               read_game d (pgn_of g) = Some (board, mainline) \<and>
               length answers = length mainline \<and>
               move_annotations_table w' =
                 move_annotations_table w @ plies d gid board 1 mainline answers \<and>
               response = \<lparr>game_id_r = gid, total_moves = int (length mainline),
                 annotations = map MoveAnnotation.truncate (plies d gid board 1 mainline answers)\<rparr>"
            unfolding rq ev by simp_all
          moreover from shape have
            "prefix (engine_calls w) (engine_calls w')" "db_requests w \<le> db_requests w'"
            "error_log w' = error_log w"
            by simp_all
          ultimately show ?thesis using Inr Some own False by simp
        qed
      qed
    qed
  qed
qed

text \<open>The outcomes of \<^verbatim>\<open>annotate_game\<close>.\<close>

lemma annotate_game_shape:
  assumes run: "annotate_game d gid uid w = (r, w')"
  shows "prefix (engine_calls w) (engine_calls w') \<and> db_requests w \<le> db_requests w' \<and>
     (case r of
        Inl e \<Rightarrow> games_table w' = games_table w \<and>
          (\<exists>detail. e = HTTPException 500 (''Error annotating game: '' @ detail) \<and>
             error_log w' = error_log w @ [''Error annotating game: '' @ detail]) \<and>
          (move_annotations_table w' = move_annotations_table w \<or>
           failed_evaluations d w w' = [] \<and> failed_requests d w w' \<noteq> [] \<and>
           (\<exists>g board mainline answers k.
              stored_game gid w = Some g \<and> user_id g = uid \<and> \<not> analyzed g \<and>
              read_game d (pgn_of g) = Some (board, mainline) \<and>
              length answers = length mainline \<and> k \<le> length mainline \<and>
              move_annotations_table w' =
                move_annotations_table w @ take k (plies d gid board 1 mainline answers)))
      | Inr response \<Rightarrow>
          error_log w' = error_log w \<and>
          failed_evaluations d w w' = [] \<and> failed_requests d w w' = [] \<and>
          (\<exists>g. stored_game gid w = Some g \<and> user_id g = uid \<and>
             (if analyzed g
              then games_table w' = games_table w \<and>
                   move_annotations_table w' = move_annotations_table w \<and>
                   engine_calls w' = engine_calls w \<and>
                   response = \<lparr>game_id_r = gid,
                     total_moves = int (length (fst (select_annotations gid w))),
                     annotations = map MoveAnnotation.truncate (fst (select_annotations gid w))\<rparr>
              else games_table w' = map (set_analyzed gid) (games_table w) \<and>
                   (\<exists>board mainline answers.
                      read_game d (pgn_of g) = Some (board, mainline) \<and>
                      length answers = length mainline \<and>
                      move_annotations_table w' =
                        move_annotations_table w @ plies d gid board 1 mainline answers \<and>
                      response = \<lparr>game_id_r = gid, total_moves = int (length mainline),
                        annotations =
                          map MoveAnnotation.truncate (plies d gid board 1 mainline answers)\<rparr>))))"
proof -
  obtain r0 w0 where body: "annotate_game_try d gid uid w = (r0, w0)"
    by (cases "annotate_game_try d gid uid w")
  note shape = annotate_game_try_shape [OF body]
  show ?thesis
  proof (cases r0)
    case (Inl e0)
    let ?msg = "''Error annotating game: '' @ str_exn e0"
    from run body Inl have res: "r = Inl (HTTPException 500 ?msg)"
      "w' = w0\<lparr>error_log := error_log w0 @ [?msg]\<rparr>"
      by (simp_all add: annotate_game_eq)
    have ev: "failed_evaluations d w w' = failed_evaluations d w w0"
      and rq: "failed_requests d w w' = failed_requests d w w0"
      and rows: "move_annotations_table w' = move_annotations_table w0"
      using res by (simp_all add: failed_evaluations_def failed_requests_def)
    have "\<exists>detail. HTTPException 500 ?msg = HTTPException 500 (''Error annotating game: '' @ detail)
        \<and> error_log w' = error_log w @ [''Error annotating game: '' @ detail]"
      using res shape by auto
    moreover from shape Inl have
      "move_annotations_table w' = move_annotations_table w \<or>
       failed_evaluations d w w' = [] \<and> failed_requests d w w' \<noteq> [] \<and>
       (\<exists>g board mainline answers k.
          stored_game gid w = Some g \<and> user_id g = uid \<and> \<not> analyzed g \<and>
          read_game d (pgn_of g) = Some (board, mainline) \<and>
          length answers = length mainline \<and> k \<le> length mainline \<and>
          move_annotations_table w' =
            move_annotations_table w @ take k (plies d gid board 1 mainline answers))"
      unfolding ev rq rows by simp
    moreover from shape Inl res have "games_table w' = games_table w"
      "prefix (engine_calls w) (engine_calls w')" "db_requests w \<le> db_requests w'"
      by simp_all
    ultimately show ?thesis using res(1) by simp
  next
    case (Inr response)
    with run body have eqs: "r = Inr response" "w' = w0" by (simp_all add: annotate_game_eq)
    from shape show ?thesis unfolding eqs Inr by (simp only: sum.case)
  qed
qed

lemma annotate_game_fresh:
  assumes run: "annotate_game d gid uid w = (Inr response, w')"
    and g: "stored_game gid w = Some g" and fresh: "\<not> analyzed g"
  shows "\<exists>board mainline answers.
     read_game d (pgn_of g) = Some (board, mainline) \<and> length answers = length mainline \<and>
     move_annotations_table w' = move_annotations_table w @ plies d gid board 1 mainline answers \<and>
     annotations response = map MoveAnnotation.truncate (plies d gid board 1 mainline answers) \<and>
     total_moves response = int (length mainline)"
  using annotate_game_shape [OF run] g fresh by auto

subsection \<open>The annotations of the plies\<close>

lemma annotate_ply_fields [simp]:
  "move_number (annotate_ply gid n s u c fb fa pb pa) = n"
  "color (annotate_ply gid n s u c fb fa pb pa) = c"
  "fen_before (annotate_ply gid n s u c fb fa pb pa) = fb"
  "fen_after (annotate_ply gid n s u c fb fa pb pa) = fa"
  "evaluation_before (annotate_ply gid n s u c fb fa pb pa) = evaluation pb"
  "evaluation_after (annotate_ply gid n s u c fb fa pb pa) = evaluation pa"
  "evaluation_change (annotate_ply gid n s u c fb fa pb pa) =
     (if c = ''black'' then float_sub (- evaluation pa) (- evaluation pb)
      else float_sub (evaluation pa) (evaluation pb))"
  "classification (annotate_ply gid n s u c fb fa pb pa) =
     classify_move (if c = ''black'' then float_sub (- evaluation pa) (- evaluation pb)
                    else float_sub (evaluation pa) (evaluation pb))"
  "is_book_move (annotate_ply gid n s u c fb fa pb pa) = False"
  "game_id (annotate_ply gid n s u c fb fa pb pa) = gid"
  by (simp_all add: annotate_ply_def Let_def)

lemma truncate_fields [simp]:
  "move_number (MoveAnnotation.truncate a) = move_number a"
  "color (MoveAnnotation.truncate a) = color a"
  "fen_before (MoveAnnotation.truncate a) = fen_before a"
  "fen_after (MoveAnnotation.truncate a) = fen_after a"
  "evaluation_before (MoveAnnotation.truncate a) = evaluation_before a"
  "evaluation_after (MoveAnnotation.truncate a) = evaluation_after a"
  "evaluation_change (MoveAnnotation.truncate a) = evaluation_change a"
  "classification (MoveAnnotation.truncate a) = classification a"
  "is_book_move (MoveAnnotation.truncate a) = is_book_move a"
  by (simp_all add: MoveAnnotation.truncate_def)

lemma plies_book_move:
  "a \<in> set (plies d gid board number moves answers) \<Longrightarrow> \<not> is_book_move a"
  by (induction d gid board number moves answers rule: plies.induct) auto

lemma plies_change:
  "a \<in> set (plies d gid board number moves answers) \<Longrightarrow>
     (color a = ''white'' \<and>
        evaluation_change a = float_sub (evaluation_after a) (evaluation_before a) \<or>
      color a = ''black'' \<and>
        evaluation_change a = float_sub (- evaluation_after a) (- evaluation_before a)) \<and>
     classification a = classify_move (evaluation_change a)"
proof (induction d gid board number moves answers rule: plies.induct)
  case (1 d gid board number move rest answers others)
  from "1.prems" consider
    "a = annotate_ply gid number (san d board move) (uci d move)
           (if turn d board then ''white'' else ''black'')
           (fen d board) (fen d (push d board move)) (fst answers) (snd answers)"
    | "a \<in> set (plies d gid (push d board move)
          (if turn d board then number else number + 1) rest others)"
    by auto
  then show ?case
  proof cases
    case 1
    then show ?thesis by (cases "turn d board") simp_all
  next
    case 2
    then show ?thesis by (rule "1.IH")
  qed
qed simp_all

lemma plies_first:
  "plies d gid board number moves answers \<noteq> [] \<Longrightarrow>
     fen_before (hd (plies d gid board number moves answers)) = fen d board \<and>
     move_number (hd (plies d gid board number moves answers)) = number \<and>
     color (hd (plies d gid board number moves answers)) =
       (if turn d board then ''white'' else ''black'')"
  by (induction d gid board number moves answers rule: plies.induct) simp_all

lemma plies_continuity:
  "Suc i < length (plies d gid board number moves answers) \<Longrightarrow>
     fen_after (plies d gid board number moves answers ! i) =
       fen_before (plies d gid board number moves answers ! Suc i)"
proof (induction d gid board number moves answers arbitrary: i rule: plies.induct)
  case (1 d gid board number move rest answers others)
  let ?rest = "plies d gid (push d board move) (if turn d board then number else number + 1)
                 rest others"
  show ?case
  proof (cases i)
    case 0
    with "1.prems" have "?rest \<noteq> []" by auto
    from plies_first [OF this] have "fen_before (hd ?rest) = fen d (push d board move)" by simp
    with 0 \<open>?rest \<noteq> []\<close> show ?thesis by (simp add: hd_conv_nth)
  next
    case (Suc j)
    with "1.prems" have "Suc j < length ?rest" by simp
    from "1.IH" [OF this] Suc show ?thesis by simp
  qed
qed simp_all

lemma plies_numbering:
  "Suc i < length (plies d gid board number moves answers) \<Longrightarrow>
     move_number (plies d gid board number moves answers ! Suc i) =
       move_number (plies d gid board number moves answers ! i)
         + (if color (plies d gid board number moves answers ! i) = ''black'' then 1 else 0)"
proof (induction d gid board number moves answers arbitrary: i rule: plies.induct)
  case (1 d gid board number move rest answers others)
  let ?rest = "plies d gid (push d board move) (if turn d board then number else number + 1)
                 rest others"
  show ?case
  proof (cases i)
    case 0
    with "1.prems" have "?rest \<noteq> []" by auto
    from plies_first [OF this]
    have "move_number (hd ?rest) = (if turn d board then number else number + 1)" by simp
    with 0 \<open>?rest \<noteq> []\<close> show ?thesis by (simp add: hd_conv_nth)
  next
    case (Suc j)
    with "1.prems" have "Suc j < length ?rest" by simp
    from "1.IH" [OF this] Suc show ?thesis by simp
  qed
qed simp_all

lemma plies_alternate:
  "\<forall>b m. turn d (push d b m) = (\<not> turn d b) \<Longrightarrow>
   i < length (plies d gid board number moves answers) \<Longrightarrow>
     color (plies d gid board number moves answers ! i) =
       (if turn d board = even i then ''white'' else ''black'') \<and>
     move_number (plies d gid board number moves answers ! i) =
       (if turn d board then number + int (i div 2) else number + int (Suc i div 2))"
proof (induction d gid board number moves answers arbitrary: i rule: plies.induct)
  case (1 d gid board number move rest answers others)
  note flips = "1.prems"(1)
  show ?case
  proof (cases i)
    case 0
    then show ?thesis by simp
  next
    case (Suc j)
    with "1.prems" have "j < length (plies d gid (push d board move)
        (if turn d board then number else number + 1) rest others)"
      by simp
    from "1.IH" [OF flips this] have ih:
      "color (plies d gid (push d board move)
          (if turn d board then number else number + 1) rest others ! j) =
         (if turn d board = odd j then ''white'' else ''black'')"
      "move_number (plies d gid (push d board move)
          (if turn d board then number else number + 1) rest others ! j) =
         (if turn d board then number + int (Suc j div 2) else number + 1 + int (j div 2))"
      using flips by (auto split: if_splits)
    show ?thesis
    proof (cases "turn d board")
      case True
      with ih Suc show ?thesis by simp
    next
      case False
      have "int (Suc (Suc j) div 2) = 1 + int (j div 2)" by simp
      with False ih Suc show ?thesis by simp
    qed
  qed
qed simp_all

lemmas sample_defs =
  sample_ok_def no_faults_def sample_deps_def sample_world_def sample_games_def
  sample_read_game_def sample_san_def sample_fen_def sample_engine_def sample_response_def
  sample_rows_def sample_world_annotated_def sample_start_def sample_after_e4_def
  sample_after_e5_def sample_setup_record_def float_sub_def double_values

lemmas route_defs =
  annotate_game_def annotate_game_try_def annotate_fresh_def execute_def select_game_def
  select_annotations_def insert_annotation_def update_analyzed_def set_analyzed_def
  select_unanalyzed_def evaluate_def logging_error_def annotate_ply_def pgn_of_def
  classify_move_def MoveAnnotation.truncate_def stored_game_def Let_def

lemma sample_run:
  "annotate_game sample_ok ''g1'' ''u1'' sample_world = (Inr sample_response, sample_world_annotated)"
  by (simp add: route_defs sample_defs)

lemma sample_stored:
  "stored_game ''g1'' sample_world =
     Some \<lparr>id_row = ''g1'', user_id = ''u1'', analyzed = False,
           pgn = Some ''1. e4 e5'', moves_only = None\<rparr>"
  by (simp add: stored_game_def sample_world_def sample_games_def)

text \<open>What an execution of \<^verbatim>\<open>annotate_game\<close> appends to the annotation table.\<close>

lemma annotate_game_rows:
  assumes run: "annotate_game d gid uid w = (r, w')"
  shows "move_annotations_table w' = move_annotations_table w \<and> games_table w' = games_table w \<or>
     (\<exists>g board mainline answers k.
        stored_game gid w = Some g \<and> user_id g = uid \<and> \<not> analyzed g \<and>
        read_game d (pgn_of g) = Some (board, mainline) \<and>
        length answers = length mainline \<and> k \<le> length mainline \<and>
        move_annotations_table w' =
          move_annotations_table w @ take k (plies d gid board 1 mainline answers) \<and>
        (if isl r then games_table w' = games_table w \<and> failed_requests d w w' \<noteq> []
         else k = length mainline \<and> games_table w' = map (set_analyzed gid) (games_table w)))"
proof (cases r)
  case (Inl e)
  with annotate_game_shape [OF run] have
    "games_table w' = games_table w \<and>
     (move_annotations_table w' = move_annotations_table w \<or>
      failed_requests d w w' \<noteq> [] \<and>
      (\<exists>g board mainline answers k.
          stored_game gid w = Some g \<and> user_id g = uid \<and> \<not> analyzed g \<and>
          read_game d (pgn_of g) = Some (board, mainline) \<and>
          length answers = length mainline \<and> k \<le> length mainline \<and>
          move_annotations_table w' =
            move_annotations_table w @ take k (plies d gid board 1 mainline answers)))"
    by simp blast
  then consider "move_annotations_table w' = move_annotations_table w"
      "games_table w' = games_table w"
    | g board mainline answers k where
      "games_table w' = games_table w" "failed_requests d w w' \<noteq> []"
      "stored_game gid w = Some g" "user_id g = uid" "\<not> analyzed g"
      "read_game d (pgn_of g) = Some (board, mainline)"
      "length answers = length mainline" "k \<le> length mainline"
      "move_annotations_table w' =
         move_annotations_table w @ take k (plies d gid board 1 mainline answers)"
    by blast
  then show ?thesis
  proof cases
    case 1
    then show ?thesis by simp
  next
    case 2
    with Inl have
      "stored_game gid w = Some g \<and> user_id g = uid \<and> \<not> analyzed g \<and>
        read_game d (pgn_of g) = Some (board, mainline) \<and>
        length answers = length mainline \<and> k \<le> length mainline \<and>
        move_annotations_table w' =
          move_annotations_table w @ take k (plies d gid board 1 mainline answers) \<and>
        (if isl r then games_table w' = games_table w \<and> failed_requests d w w' \<noteq> []
         else k = length mainline \<and> games_table w' = map (set_analyzed gid) (games_table w))"
      by simp
    then show ?thesis by blast
  qed
next
  case (Inr response)
  from annotate_game_shape [OF run [unfolded Inr], unfolded sum.case]
  have "\<exists>g. stored_game gid w = Some g \<and> user_id g = uid \<and>
             (if analyzed g
              then games_table w' = games_table w \<and>
                   move_annotations_table w' = move_annotations_table w \<and>
                   engine_calls w' = engine_calls w \<and>
                   response = \<lparr>game_id_r = gid,
                     total_moves = int (length (fst (select_annotations gid w))),
                     annotations = map MoveAnnotation.truncate (fst (select_annotations gid w))\<rparr>
              else games_table w' = map (set_analyzed gid) (games_table w) \<and>
                   (\<exists>board mainline answers.
                      read_game d (pgn_of g) = Some (board, mainline) \<and>
                      length answers = length mainline \<and>
                      move_annotations_table w' =
                        move_annotations_table w @ plies d gid board 1 mainline answers \<and>
                      response = \<lparr>game_id_r = gid, total_moves = int (length mainline),
                        annotations =
                          map MoveAnnotation.truncate (plies d gid board 1 mainline answers)\<rparr>))"
    by (elim conjE)
  then obtain g where g: "stored_game gid w = Some g" "user_id g = uid" and
    branch: "if analyzed g
      then games_table w' = games_table w \<and>
           move_annotations_table w' = move_annotations_table w \<and>
           engine_calls w' = engine_calls w \<and>
           response = \<lparr>game_id_r = gid,
             total_moves = int (length (fst (select_annotations gid w))),
             annotations = map MoveAnnotation.truncate (fst (select_annotations gid w))\<rparr>
      else games_table w' = map (set_analyzed gid) (games_table w) \<and>
        (\<exists>board mainline answers.
           read_game d (pgn_of g) = Some (board, mainline) \<and>
           length answers = length mainline \<and>
           move_annotations_table w' =
             move_annotations_table w @ plies d gid board 1 mainline answers \<and>
           response = \<lparr>game_id_r = gid, total_moves = int (length mainline),
             annotations =
               map MoveAnnotation.truncate (plies d gid board 1 mainline answers)\<rparr>)"
    by blast
  show ?thesis
  proof (cases "analyzed g")
    case True
    with branch show ?thesis by simp
  next
    case False
    with branch have "games_table w' = map (set_analyzed gid) (games_table w) \<and>
        (\<exists>board mainline answers.
           read_game d (pgn_of g) = Some (board, mainline) \<and>
           length answers = length mainline \<and>
           move_annotations_table w' =
             move_annotations_table w @ plies d gid board 1 mainline answers \<and>
           response = \<lparr>game_id_r = gid, total_moves = int (length mainline),
             annotations =
               map MoveAnnotation.truncate (plies d gid board 1 mainline answers)\<rparr>)"
      by (simp only: if_False)
    then obtain board mainline answers where
      "games_table w' = map (set_analyzed gid) (games_table w)"
      "read_game d (pgn_of g) = Some (board, mainline)"
      "length answers = length mainline"
      "move_annotations_table w' = move_annotations_table w @ plies d gid board 1 mainline answers"
      by blast
    with g False Inr have
      "stored_game gid w = Some g \<and> user_id g = uid \<and> \<not> analyzed g \<and>
        read_game d (pgn_of g) = Some (board, mainline) \<and>
        length answers = length mainline \<and> length mainline \<le> length mainline \<and>
        move_annotations_table w' =
          move_annotations_table w @
            take (length mainline) (plies d gid board 1 mainline answers) \<and>
        (if isl r then games_table w' = games_table w \<and> failed_requests d w w' \<noteq> []
         else length mainline = length mainline \<and>
           games_table w' = map (set_analyzed gid) (games_table w))"
      by (simp add: length_plies)
    then show ?thesis by blast
  qed
qed

lemma annotate_game_new_rows:
  assumes run: "annotate_game d gid uid w = (r, w')"
    and new: "a \<in> set (drop (length (move_annotations_table w)) (move_annotations_table w'))"
  shows "\<exists>board number moves answers. a \<in> set (plies d gid board number moves answers)"
proof -
  from annotate_game_rows [OF run] new obtain board mainline answers k where
    "a \<in> set (take k (plies d gid board 1 mainline answers))"
    by auto
  then have "a \<in> set (plies d gid board 1 mainline answers)" by (rule in_set_takeD)
  then show ?thesis by blast
qed

lemma annotate_game_fresh_annotations:
  assumes run: "annotate_game d gid uid w = (Inr response, w')"
    and g: "stored_game gid w = Some g" and fresh: "\<not> analyzed g"
    and a: "a \<in> set (annotations response)"
  shows "\<exists>board number moves answers b.
     b \<in> set (plies d gid board number moves answers) \<and> a = MoveAnnotation.truncate b"
proof -
  from annotate_game_fresh [OF run g fresh] a
  obtain board mainline answers b where
    "b \<in> set (plies d gid board 1 mainline answers) \<and> a = MoveAnnotation.truncate b"
    by auto
  then show ?thesis by blast
qed

lemmas fault_defs =
  third_request_fails_def third_call_fails_def sample_db_fault_def sample_engine_fault_def
  sample_world_engine_fault_def

text \<open>The route on a game that is analyzed already.\<close>

lemma annotate_game_try_analyzed:
  assumes "stored_game gid w = Some g" "user_id g = uid" "analyzed g"
  shows "annotate_game_try d gid uid w =
     (case execute_fails d (db_requests w) of
        Some msg \<Rightarrow> (Inl (Error msg), w\<lparr>db_requests := Suc (db_requests w)\<rparr>)
      | None \<Rightarrow>
         (case execute_fails d (Suc (db_requests w)) of
            Some msg \<Rightarrow> (Inl (Error msg), w\<lparr>db_requests := Suc (Suc (db_requests w))\<rparr>)
          | None \<Rightarrow>
              (Inr \<lparr>game_id_r = gid,
                    total_moves = int (length (fst (select_annotations gid w))),
                    annotations = map MoveAnnotation.truncate (fst (select_annotations gid w))\<rparr>,
               w\<lparr>db_requests := Suc (Suc (db_requests w))\<rparr>)))"
  using assms by (cases "execute_fails d (db_requests w)") (simp_all add: annotate_game_try_eq)

lemma annotate_game_analyzed:
  assumes "stored_game gid w = Some g" "user_id g = uid" "analyzed g"
  shows "games_table (snd (annotate_game d gid uid w)) = games_table w \<and>
      move_annotations_table (snd (annotate_game d gid uid w)) = move_annotations_table w \<and>
      engine_calls (snd (annotate_game d gid uid w)) = engine_calls w \<and>
      (\<forall>response. fst (annotate_game d gid uid w) = Inr response \<longrightarrow>
         response = \<lparr>game_id_r = gid,
                total_moves = int (length (fst (select_annotations gid w))),
                annotations = map MoveAnnotation.truncate (fst (select_annotations gid w))\<rparr>)"
proof (cases "execute_fails d (db_requests w)")
  case (Some msg)
  then show ?thesis
    by (simp add: annotate_game_def annotate_game_try_analyzed [OF assms] logging_error_def)
next
  case None
  note first = this
  show ?thesis
  proof (cases "execute_fails d (Suc (db_requests w))")
    case (Some msg)
    with first show ?thesis
      by (simp add: annotate_game_def annotate_game_try_analyzed [OF assms] logging_error_def)
  next
    case None
    with first show ?thesis
      by (simp add: annotate_game_def annotate_game_try_analyzed [OF assms])
  qed
qed

subsection \<open>The batch, game by game\<close>

lemma length_game_states [simp]: "length (game_states d uid gids w) = length gids"
  by (induction gids arbitrary: w) simp_all

lemma process_games_eq:
  "process_games d uid gids processed w =
     (processed @ map fst (filter (succeeded d uid) (zip gids (game_states d uid gids w))),
      foldl (\<lambda>v gid. after_game d uid gid v) w gids)"
proof (induction gids arbitrary: processed w)
  case Nil
  show ?case by simp
next
  case (Cons gid rest)
  obtain r w1 where call: "annotate_game d gid uid w = (r, w1)"
    by (cases "annotate_game d gid uid w")
  show ?case
  proof (cases r)
    case (Inl e)
    with call show ?thesis
      by (simp add: Cons.IH succeeded_def after_game_def)
  next
    case (Inr response)
    with call show ?thesis
      by (simp add: Cons.IH succeeded_def after_game_def)
  qed
qed

lemma process_unannotated_games_eq:
  "process_unannotated_games d limit uid w =
     (case execute_fails d (db_requests w) of
        Some msg \<Rightarrow>
          (Inl (HTTPException 500 (''Error in batch processing: '' @ msg)),
           w\<lparr>db_requests := Suc (db_requests w),
             error_log := error_log w @ [''Error in batch processing: '' @ msg]\<rparr>)
      | None \<Rightarrow>
          (Inr \<lparr>processed_games =
                  int (length (filter (succeeded d uid) (batch_attempts d limit uid w))),
                game_ids = map fst (filter (succeeded d uid) (batch_attempts d limit uid w))\<rparr>,
           foldl (\<lambda>v gid. after_game d uid gid v) (w\<lparr>db_requests := Suc (db_requests w)\<rparr>)
             (fst (select_unanalyzed limit w))))"
proof (cases "execute_fails d (db_requests w)")
  case (Some msg)
  then show ?thesis
    by (simp add: process_unannotated_games_def process_unannotated_games_try_def
          execute_fault logging_error_def)
next
  case None
  let ?w1 = "w\<lparr>db_requests := Suc (db_requests w)\<rparr>"
  let ?data = "fst (select_unanalyzed limit w)"
  have listing: "execute d (select_unanalyzed limit) w = (Inr ?data, ?w1)"
    using None by (simp add: execute_done select_unanalyzed_def)
  show ?thesis
  proof (cases "?data = []")
    case True
    with None show ?thesis
      by (simp add: process_unannotated_games_def process_unannotated_games_try_def
            listing batch_attempts_def)
  next
    case False
    with None show ?thesis
      by (simp add: process_unannotated_games_def process_unannotated_games_try_def
            listing batch_attempts_def process_games_eq)
  qed
qed

text \<open>The log only grows, and a failed game leaves its message in it.\<close>

lemma annotate_game_log: "prefix (error_log w) (error_log (snd (annotate_game d gid uid w)))"
proof -
  obtain r w' where run: "annotate_game d gid uid w = (r, w')"
    by (cases "annotate_game d gid uid w")
  show ?thesis
  proof (cases r)
    case (Inl e)
    from annotate_game_shape [OF run [unfolded Inl], unfolded sum.case]
    have "\<exists>detail. error_log w' = error_log w @ [''Error annotating game: '' @ detail]"
      by blast
    with run show ?thesis by auto
  next
    case (Inr response)
    from annotate_game_shape [OF run [unfolded Inr], unfolded sum.case]
    have "error_log w' = error_log w" by blast
    with run show ?thesis by simp
  qed
qed

lemma after_game_log: "prefix (error_log w) (error_log (after_game d uid gid w))"
proof -
  have "prefix (error_log (snd (annotate_game d gid uid w))) (error_log (after_game d uid gid w))"
    by (simp add: after_game_def logging_error_def split: prod.splits sum.splits)
  with annotate_game_log [of w d gid uid] show ?thesis by (rule prefix_order.trans)
qed

lemma batch_log: "prefix (error_log w) (error_log (foldl (\<lambda>v gid. after_game d uid gid v) w gids))"
proof (induction gids arbitrary: w)
  case Nil
  show ?case by simp
next
  case (Cons gid rest)
  from after_game_log [of w d uid gid] Cons.IH [of "after_game d uid gid w"]
  show ?case by (simp add: prefix_order.trans)
qed

lemma failed_game_logged:
  assumes "(gid, v) \<in> set (zip gids (game_states d uid gids w))"
    and "fst (annotate_game d gid uid v) = Inl e"
  shows "''Error processing game '' @ gid @ '': '' @ str_exn e
           \<in> set (error_log (foldl (\<lambda>v gid. after_game d uid gid v) w gids))"
  using assms
proof (induction gids arbitrary: w)
  case Nil
  then show ?case by simp
next
  case (Cons first rest)
  from Cons.prems(1) consider "gid = first" "v = w"
    | "(gid, v) \<in> set (zip rest (game_states d uid rest (after_game d uid first w)))"
    by auto
  then show ?case
  proof cases
    case 1
    with Cons.prems(2) have "''Error processing game '' @ gid @ '': '' @ str_exn e
        \<in> set (error_log (after_game d uid first w))"
      by (cases "annotate_game d first uid w") (simp add: after_game_def logging_error_def)
    moreover have "set (error_log (after_game d uid first w)) \<subseteq>
        set (error_log (foldl (\<lambda>v gid. after_game d uid gid v) (after_game d uid first w) rest))"
      using batch_log [of "after_game d uid first w" d uid rest] by (rule set_mono_prefix)
    ultimately show ?thesis by auto
  next
    case 2
    from Cons.IH [OF this Cons.prems(2)] show ?thesis by simp
  qed
qed

lemma sample_batch:
  "process_unannotated_games sample_ok 10 ''u1'' sample_world =
     (Inr \<lparr>processed_games = 2, game_ids = [''g1'', ''g3'']\<rparr>, sample_world_batch)"
  by (simp add: process_unannotated_games_def process_unannotated_games_try_def
        route_defs sample_defs sample_world_batch_def str_nat.simps)

subsection \<open>The games a batch touches\<close>

lemma flags_set_for_refl [simp]: "flags_set_for uid gs gs"
  by (simp add: flags_set_for_def list_all2_same)

lemma flags_set_for_trans:
  assumes "flags_set_for uid gs gs'" "flags_set_for uid gs' gs''"
  shows "flags_set_for uid gs gs''"
  unfolding flags_set_for_def
  by (rule list_all2_trans [OF _ assms [unfolded flags_set_for_def]]) auto

lemma flags_set_for_ids:
  "flags_set_for uid gs gs' \<Longrightarrow> map id_row gs' = map id_row gs"
  unfolding flags_set_for_def by (induction rule: list_all2_induct) auto

lemma flags_set_for_other:
  "flags_set_for uid gs gs' \<Longrightarrow> g \<in> set gs \<Longrightarrow> user_id g \<noteq> uid \<Longrightarrow> g \<in> set gs'"
  unfolding flags_set_for_def by (induction rule: list_all2_induct) auto

lemma flags_set_for_origin:
  "flags_set_for uid gs gs' \<Longrightarrow> g' \<in> set gs' \<Longrightarrow>
     \<exists>g \<in> set gs. id_row g = id_row g' \<and> user_id g = user_id g'"
  unfolding flags_set_for_def by (induction rule: list_all2_induct) auto

lemma same_key:
  "distinct (map id_row gs) \<Longrightarrow> g \<in> set gs \<Longrightarrow> h \<in> set gs \<Longrightarrow> id_row g = id_row h \<Longrightarrow> g = h"
  by (auto simp: distinct_map dest: inj_onD)

lemma flags_set_for_update:
  assumes keys: "distinct (map id_row gs)"
    and g: "g \<in> set gs" "id_row g = gid" "user_id g = uid"
  shows "flags_set_for uid gs (map (set_analyzed gid) gs)"
proof -
  have "set_analyzed gid h = h \<or> user_id h = uid \<and> set_analyzed gid h = h\<lparr>analyzed := True\<rparr>"
    if "h \<in> set gs" for h
  proof (cases "id_row h = gid")
    case True
    with same_key [OF keys that g(1)] g have "user_id h = uid" by simp
    with True show ?thesis by (simp add: set_analyzed_def)
  next
    case False
    then show ?thesis by (simp add: set_analyzed_def)
  qed
  then show ?thesis
    by (simp add: flags_set_for_def list_all2_map2 list_all2_same)
qed

lemma annotate_game_owner:
  assumes run: "annotate_game d gid uid w = (Inr response, w')"
  shows "\<exists>g. stored_game gid w = Some g \<and> user_id g = uid"
  using annotate_game_shape [OF run, unfolded sum.case] by blast

lemma annotate_game_flags:
  assumes keys: "distinct (map id_row (games_table w))"
    and run: "annotate_game d gid uid w = (r, w')"
  shows "flags_set_for uid (games_table w) (games_table w')"
proof -
  from annotate_game_rows [OF run]
  consider "games_table w' = games_table w"
    | g where "stored_game gid w = Some g" "user_id g = uid"
        "games_table w' = map (set_analyzed gid) (games_table w)"
    by (auto split: if_splits)
  then show ?thesis
  proof cases
    case 1
    then show ?thesis by simp
  next
    case 2
    from stored_game_mem [OF 2(1)] 2(2) have "g \<in> set (games_table w)" "id_row g = gid"
      "user_id g = uid"
      by simp_all
    from flags_set_for_update [OF keys this] 2(3) show ?thesis by simp
  qed
qed

lemma after_game_flags:
  assumes keys: "distinct (map id_row (games_table w))"
  shows "flags_set_for uid (games_table w) (games_table (after_game d uid gid w))"
proof -
  obtain r w' where run: "annotate_game d gid uid w = (r, w')"
    by (cases "annotate_game d gid uid w")
  have "games_table (after_game d uid gid w) = games_table w'"
    using run by (simp add: after_game_def logging_error_def split: sum.splits)
  with annotate_game_flags [OF keys run] show ?thesis by simp
qed

lemma batch_flags:
  "distinct (map id_row (games_table w)) \<Longrightarrow>
     flags_set_for uid (games_table w)
       (games_table (foldl (\<lambda>v gid. after_game d uid gid v) w gids)) \<and>
     (\<forall>v \<in> set (game_states d uid gids w). flags_set_for uid (games_table w) (games_table v))"
proof (induction gids arbitrary: w)
  case Nil
  show ?case by simp
next
  case (Cons gid rest)
  let ?w1 = "after_game d uid gid w"
  note step = after_game_flags [OF Cons.prems, of uid d gid]
  from flags_set_for_ids [OF step] Cons.prems
  have "distinct (map id_row (games_table ?w1))" by simp
  note ih = Cons.IH [OF this]
  from ih step show ?case
    by (auto intro: flags_set_for_trans)
qed

lemma batch_candidates:
  "gid \<in> set (fst (select_unanalyzed limit w)) \<Longrightarrow>
     \<exists>g \<in> set (games_table w). id_row g = gid \<and> \<not> analyzed g"
proof -
  assume "gid \<in> set (fst (select_unanalyzed limit w))"
  then obtain g where "g \<in> set (take limit (filter (\<lambda>g. \<not> analyzed g) (games_table w)))"
    "id_row g = gid"
    by (auto simp: select_unanalyzed_def)
  moreover from this(1) have "g \<in> set (filter (\<lambda>g. \<not> analyzed g) (games_table w))"
    by (rule in_set_takeD)
  ultimately show ?thesis by auto
qed

lemma batch_candidates_distinct:
  "distinct (map id_row (games_table w)) \<Longrightarrow> distinct (fst (select_unanalyzed limit w))"
  by (simp add: select_unanalyzed_def take_map [symmetric] distinct_map_filter)

text \<open>
  The first call and the second: when a game is annotated afresh in a table that
  holds no annotation of it, a second call whose two read requests are answered
  returns the response of the first.
\<close>

lemma plies_game_id:
  "a \<in> set (plies d gid board number moves answers) \<Longrightarrow> game_id a = gid"
  by (induction d gid board number moves answers rule: plies.induct) auto

lemma plies_sorted:
  "(\<forall>a \<in> set (plies d gid board number moves answers). number \<le> move_number a) \<and>
   sorted (map move_number (plies d gid board number moves answers))"
proof (induction d gid board number moves answers rule: plies.induct)
  case (1 d gid board number move rest answers others)
  let ?next = "if turn d board then number else number + 1"
  let ?rest = "plies d gid (push d board move) ?next rest others"
  from 1 have above: "\<forall>a \<in> set ?rest. ?next \<le> move_number a"
    and sorted: "sorted (map move_number ?rest)"
    by simp_all
  have "number \<le> ?next" by simp
  with above have "\<forall>a \<in> set ?rest. number \<le> move_number a"
    by (meson order_trans)
  with sorted show ?case by simp
qed simp_all

lemma stored_game_set_analyzed:
  assumes "stored_game gid w = Some g"
    and "games_table w' = map (set_analyzed gid) (games_table w)"
  shows "stored_game gid w' = Some (g\<lparr>analyzed := True\<rparr>)"
proof -
  from assms(1) obtain others where
    rows: "filter (\<lambda>g. id_row g = gid) (games_table w) = g # others"
    by (auto simp: stored_game_def split: list.splits)
  then have "g \<in> set (filter (\<lambda>g. id_row g = gid) (games_table w))" by simp
  then have id: "id_row g = gid" by simp
  have "(\<lambda>g. id_row g = gid) \<circ> set_analyzed gid = (\<lambda>g. id_row g = gid)"
    by (auto simp: set_analyzed_def fun_eq_iff)
  then have "filter (\<lambda>g. id_row g = gid) (games_table w') =
      map (set_analyzed gid) (filter (\<lambda>g. id_row g = gid) (games_table w))"
    by (simp add: assms(2) filter_map)
  with rows id show ?thesis by (simp add: stored_game_def set_analyzed_def)
qed

lemma annotate_game_again:
  assumes run: "annotate_game d gid uid w = (Inr response, w')"
    and g: "stored_game gid w = Some g" and fresh: "\<not> analyzed g"
    and none: "filter (\<lambda>a. game_id a = gid) (move_annotations_table w) = []"
    and reads: "execute_fails d (db_requests w') = None"
      "execute_fails d (Suc (db_requests w')) = None"
  shows "fst (annotate_game d gid uid w') = Inr response"
proof -
  from annotate_game_shape [OF run] g fresh obtain board mainline answers where
    own: "user_id g = uid" and
    games: "games_table w' = map (set_analyzed gid) (games_table w)" and
    len: "length answers = length mainline" and
    rows: "move_annotations_table w' =
      move_annotations_table w @ plies d gid board 1 mainline answers" and
    response: "response = \<lparr>game_id_r = gid, total_moves = int (length mainline),
      annotations = map MoveAnnotation.truncate (plies d gid board 1 mainline answers)\<rparr>"
    by auto
  let ?plies = "plies d gid board 1 mainline answers"
  have "filter (\<lambda>a. game_id a = gid) ?plies = ?plies"
    by (simp add: filter_id_conv plies_game_id)
  with none rows have "filter (\<lambda>a. game_id a = gid) (move_annotations_table w') = ?plies"
    by simp
  moreover have "sort_key move_number ?plies = ?plies"
    using plies_sorted [of d gid board 1 mainline answers]
    by (intro sort_key_id_if_sorted) simp
  ultimately have stored: "fst (select_annotations gid w') = ?plies"
    by (simp add: select_annotations_def)
  from stored_game_set_analyzed [OF g games]
  have g': "stored_game gid w' = Some (g\<lparr>analyzed := True\<rparr>)" .
  have "annotate_game_try d gid uid w' =
      (Inr \<lparr>game_id_r = gid, total_moves = int (length ?plies),
            annotations = map MoveAnnotation.truncate ?plies\<rparr>,
       w'\<lparr>db_requests := Suc (Suc (db_requests w'))\<rparr>)"
    using annotate_game_try_analyzed [OF g', of uid d] own reads stored by simp
  then show ?thesis
    by (simp add: annotate_game_def response len length_plies)
qed

subsection \<open>The engine calls of an execution\<close>

text \<open>The engine calls of the loop and the evaluations it records.\<close>

lemma annotate_mainline_replies:
  "annotate_mainline d gid board number moves sofar w = (Inr anns, w') \<Longrightarrow>
     \<exists>new. anns = sofar @ new \<and> length new = length moves \<and>
       engine_calls w' = engine_calls w @ concat (map (\<lambda>a. [fen_before a, fen_after a]) new) \<and>
       (\<forall>i<length new. \<exists>pb pa.
          evaluate_position d (length (engine_calls w) + 2 * i) (fen_before (new ! i)) = Inr pb \<and>
          evaluate_position d (length (engine_calls w) + 2 * i + 1) (fen_after (new ! i)) = Inr pa \<and>
          evaluation_before (new ! i) = evaluation pb \<and>
          evaluation_after (new ! i) = evaluation pa)"
proof (induction moves arbitrary: board number sofar w)
  case Nil
  then show ?case by simp
next
  case (Cons move rest)
  let ?w1 = "snd (evaluate d (fen d board) w)"
  let ?w2 = "snd (evaluate d (fen d (push d board move)) ?w1)"
  let ?n = "length (engine_calls w)"
  show ?case
  proof (cases "fst (evaluate d (fen d board) w)")
    case (Inl e)
    with Cons.prems show ?thesis
      by (auto simp: Let_def split: prod.splits sum.splits)
  next
    case (Inr pb)
    note first = this
    then have pb: "evaluate_position d ?n (fen d board) = Inr pb"
      by (simp add: evaluate_result split: sum.splits)
    show ?thesis
    proof (cases "fst (evaluate d (fen d (push d board move)) ?w1)")
      case (Inl e)
      with first Cons.prems show ?thesis
        by (auto simp: Let_def split: prod.splits sum.splits)
    next
      case (Inr pa)
      then have pa: "evaluate_position d (Suc ?n) (fen d (push d board move)) = Inr pa"
        by (simp add: evaluate_result evaluate_world split: sum.splits)
      let ?a = "annotate_ply gid number (san d board move) (uci d move)
                  (if turn d board then ''white'' else ''black'')
                  (fen d board) (fen d (push d board move)) pb pa"
      from Inr first Cons.prems have rec:
        "annotate_mainline d gid (push d board move)
           (if turn d board then number else number + 1) rest (sofar @ [?a]) ?w2 = (Inr anns, w')"
        by (auto simp: Let_def split: prod.splits sum.splits)
      have calls2: "engine_calls ?w2 = engine_calls w @ [fen d board, fen d (push d board move)]"
        by (simp add: evaluate_world)
      from Cons.IH [OF rec] obtain new where new:
        "anns = (sofar @ [?a]) @ new" "length new = length rest"
        "engine_calls w' =
           engine_calls ?w2 @ concat (map (\<lambda>a. [fen_before a, fen_after a]) new)"
        "\<forall>i<length new. \<exists>pb pa.
          evaluate_position d (length (engine_calls ?w2) + 2 * i) (fen_before (new ! i)) = Inr pb \<and>
          evaluate_position d (length (engine_calls ?w2) + 2 * i + 1) (fen_after (new ! i)) = Inr pa \<and>
          evaluation_before (new ! i) = evaluation pb \<and>
          evaluation_after (new ! i) = evaluation pa"
        by blast
      have each: "\<exists>pb pa.
          evaluate_position d (?n + 2 * i) (fen_before ((?a # new) ! i)) = Inr pb \<and>
          evaluate_position d (?n + 2 * i + 1) (fen_after ((?a # new) ! i)) = Inr pa \<and>
          evaluation_before ((?a # new) ! i) = evaluation pb \<and>
          evaluation_after ((?a # new) ! i) = evaluation pa"
        if "i < length (?a # new)" for i
      proof (cases i)
        case 0
        with pb pa show ?thesis by simp
      next
        case (Suc j)
        with that have "j < length new" by simp
        with new(4) obtain qb qa where
          "evaluate_position d (length (engine_calls ?w2) + 2 * j) (fen_before (new ! j)) = Inr qb"
          "evaluate_position d (length (engine_calls ?w2) + 2 * j + 1) (fen_after (new ! j)) = Inr qa"
          "evaluation_before (new ! j) = evaluation qb" "evaluation_after (new ! j) = evaluation qa"
          by blast
        with Suc show ?thesis by (simp add: calls2)
      qed
      have "anns = sofar @ (?a # new) \<and> length (?a # new) = length (move # rest) \<and>
          engine_calls w' =
            engine_calls w @ concat (map (\<lambda>a. [fen_before a, fen_after a]) (?a # new))"
        using new(1,2,3) by (simp add: calls2)
      with each show ?thesis by blast
    qed
  qed
qed

text \<open>The rows that an execution appends are annotations that the loop has built.\<close>

lemma annotate_fresh_mainline:
  assumes run: "annotate_fresh d gid g w = (r, w')"
  shows "move_annotations_table w' = move_annotations_table w \<and> (\<forall>response. r \<noteq> Inr response) \<or>
     (\<exists>board mainline anns w1 k.
        annotate_mainline d gid board 1 mainline [] w = (Inr anns, w1) \<and> k \<le> length anns \<and>
        move_annotations_table w' = move_annotations_table w @ take k anns \<and>
        (\<forall>response. r = Inr response \<longrightarrow>
           k = length anns \<and> engine_calls w' = engine_calls w1 \<and>
           annotations response = map MoveAnnotation.truncate anns))"
proof (cases "pgn_of g = []")
  case True
  with run show ?thesis by (auto simp: annotate_fresh_def)
next
  case nonempty: False
  show ?thesis
  proof (cases "read_game d (pgn_of g)")
    case None
    with run nonempty show ?thesis by (auto simp: annotate_fresh_def)
  next
    case (Some parsed)
    obtain board mainline where parsed: "parsed = (board, mainline)" by (cases parsed)
    obtain r1 w1 where loop: "annotate_mainline d gid board 1 mainline [] w = (r1, w1)"
      by (cases "annotate_mainline d gid board 1 mainline [] w")
    note frame1 = annotate_mainline_frame [OF loop]
    show ?thesis
    proof (cases r1)
      case (Inl e)
      with run nonempty Some parsed loop have "r = Inl e" "w' = w1"
        by (simp_all add: annotate_fresh_def)
      with frame1 show ?thesis by simp
    next
      case (Inr anns)
      obtain r2 w2 where store: "store_annotations d anns w1 = (r2, w2)"
        by (cases "store_annotations d anns w1")
      note shape2 = store_annotations_shape [OF store]
      show ?thesis
      proof (cases r2)
        case (Inl e)
        with run nonempty Some parsed loop Inr store have res: "r = Inl e" "w' = w2"
          by (simp_all add: annotate_fresh_def)
        from Inl shape2 obtain k where k: "k < length anns"
          "move_annotations_table w2 = move_annotations_table w1 @ take k anns"
          by auto
        have "annotate_mainline d gid board 1 mainline [] w = (Inr anns, w1) \<and> k \<le> length anns \<and>
            move_annotations_table w' = move_annotations_table w @ take k anns \<and>
            (\<forall>response. r = Inr response \<longrightarrow>
               k = length anns \<and> engine_calls w' = engine_calls w1 \<and>
               annotations response = map MoveAnnotation.truncate anns)"
          using k frame1 loop Inr res by simp
        then show ?thesis by blast
      next
        case ok2: (Inr u)
        with shape2 have rows: "move_annotations_table w2 = move_annotations_table w1 @ anns"
          and calls: "engine_calls w2 = engine_calls w1"
          by simp_all
        let ?w2 = "w2\<lparr>db_requests := Suc (db_requests w2)\<rparr>"
        show ?thesis
        proof (cases "execute_fails d (db_requests w2)")
          case (Some msg)
          with run nonempty \<open>read_game d (pgn_of g) = Some parsed\<close> parsed loop Inr store ok2
          have res: "r = Inl (Error msg)" "w' = ?w2"
            by (simp_all add: annotate_fresh_def execute_fault)
          have "annotate_mainline d gid board 1 mainline [] w = (Inr anns, w1) \<and>
              length anns \<le> length anns \<and>
              move_annotations_table w' = move_annotations_table w @ take (length anns) anns \<and>
              (\<forall>response. r = Inr response \<longrightarrow>
                 length anns = length anns \<and> engine_calls w' = engine_calls w1 \<and>
                 annotations response = map MoveAnnotation.truncate anns)"
            using rows frame1 loop Inr res by simp
          then show ?thesis by blast
        next
          case None
          let ?w3 = "?w2\<lparr>games_table := map (set_analyzed gid) (games_table w2)\<rparr>"
          from None run nonempty \<open>read_game d (pgn_of g) = Some parsed\<close> parsed loop Inr store ok2
          have res: "r = Inr \<lparr>game_id_r = gid, total_moves = int (length anns),
                annotations = map MoveAnnotation.truncate anns\<rparr>" "w' = ?w3"
            by (simp_all add: annotate_fresh_def execute_done update_analyzed_def)
          have "annotate_mainline d gid board 1 mainline [] w = (Inr anns, w1) \<and>
              length anns \<le> length anns \<and>
              move_annotations_table w' = move_annotations_table w @ take (length anns) anns \<and>
              (\<forall>response. r = Inr response \<longrightarrow>
                 length anns = length anns \<and> engine_calls w' = engine_calls w1 \<and>
                 annotations response = map MoveAnnotation.truncate anns)"
            using rows calls frame1 loop Inr res by simp
          then show ?thesis by blast
        qed
      qed
    qed
  qed
qed

lemma annotate_game_mainline:
  assumes run: "annotate_game d gid uid w = (r, w')"
  shows "move_annotations_table w' = move_annotations_table w \<and>
       (\<forall>response g. r = Inr response \<and> stored_game gid w = Some g \<longrightarrow> analyzed g) \<or>
     (\<exists>board mainline anns w0 w1 k.
        engine_calls w0 = engine_calls w \<and>
        annotate_mainline d gid board 1 mainline [] w0 = (Inr anns, w1) \<and> k \<le> length anns \<and>
        move_annotations_table w' = move_annotations_table w @ take k anns \<and>
        (\<forall>response. r = Inr response \<longrightarrow>
           k = length anns \<and> engine_calls w' = engine_calls w1 \<and>
           annotations response = map MoveAnnotation.truncate anns))"
proof -
  obtain r0 v where body: "annotate_game_try d gid uid w = (r0, v)"
    by (cases "annotate_game_try d gid uid w")
  from run body have out: "move_annotations_table w' = move_annotations_table v"
    "engine_calls w' = engine_calls v" "\<And>response. r = Inr response \<Longrightarrow> r0 = Inr response"
    by (auto simp: annotate_game_eq split: sum.splits)
  let ?w0 = "w\<lparr>db_requests := Suc (db_requests w)\<rparr>"
  let ?same = "move_annotations_table w' = move_annotations_table w \<and>
       (\<forall>response g. r = Inr response \<and> stored_game gid w = Some g \<longrightarrow> analyzed g)"
  show ?thesis
  proof (cases "execute_fails d (db_requests w)")
    case (Some msg)
    with body have "r0 = Inl (Error msg)" "v = ?w0" by (simp_all add: annotate_game_try_eq)
    with out have ?same by auto
    then show ?thesis ..
  next
    case None
    note first = this
    show ?thesis
    proof (cases "stored_game gid w")
      case None
      with first body have "isl r0" "v = ?w0" by (auto simp: annotate_game_try_eq)
      with out have ?same by auto
      then show ?thesis ..
    next
      case (Some g)
      show ?thesis
      proof (cases "user_id g \<noteq> uid")
        case True
        with first Some body have "isl r0" "v = ?w0" by (auto simp: annotate_game_try_eq)
        with out have ?same by auto
        then show ?thesis ..
      next
        case own: False
        show ?thesis
        proof (cases "analyzed g")
          case True
          with first Some own body have "move_annotations_table v = move_annotations_table w"
            by (auto simp: annotate_game_try_eq split: option.splits)
          with out Some True have ?same by auto
          then show ?thesis ..
        next
          case False
          with first Some own body have fresh: "annotate_fresh d gid g ?w0 = (r0, v)"
            by (simp add: annotate_game_try_eq)
          from annotate_fresh_mainline [OF fresh] consider
            "move_annotations_table v = move_annotations_table ?w0" "\<forall>response. r0 \<noteq> Inr response"
            | board mainline anns w1 k where
              "annotate_mainline d gid board 1 mainline [] ?w0 = (Inr anns, w1)" "k \<le> length anns"
              "move_annotations_table v = move_annotations_table ?w0 @ take k anns"
              "\<forall>response. r0 = Inr response \<longrightarrow>
                 k = length anns \<and> engine_calls v = engine_calls w1 \<and>
                 annotations response = map MoveAnnotation.truncate anns"
            by blast
          then show ?thesis
          proof cases
            case 1
            with out have ?same by auto
            then show ?thesis ..
          next
            case 2
            have "engine_calls ?w0 = engine_calls w \<and>
                annotate_mainline d gid board 1 mainline [] ?w0 = (Inr anns, w1) \<and>
                k \<le> length anns \<and>
                move_annotations_table w' = move_annotations_table w @ take k anns \<and>
                (\<forall>response. r = Inr response \<longrightarrow>
                   k = length anns \<and> engine_calls w' = engine_calls w1 \<and>
                   annotations response = map MoveAnnotation.truncate anns)"
              using 2 out by auto
            then show ?thesis by blast
          qed
        qed
      qed
    qed
  qed
qed

text \<open>The rows an execution appends, one by one: each holds the evaluations that the
  engine returned for the positions before and after the ply.\<close>

lemma annotate_game_replies:
  assumes run: "annotate_game d gid uid w = (r, w')"
    and i: "i < length (drop (length (move_annotations_table w)) (move_annotations_table w'))"
  shows "\<exists>pb pa.
     evaluate_position d (length (engine_calls w) + 2 * i)
       (fen_before (drop (length (move_annotations_table w)) (move_annotations_table w') ! i)) = Inr pb \<and>
     evaluate_position d (length (engine_calls w) + 2 * i + 1)
       (fen_after (drop (length (move_annotations_table w)) (move_annotations_table w') ! i)) = Inr pa \<and>
     evaluation_before (drop (length (move_annotations_table w)) (move_annotations_table w') ! i) =
       evaluation pb \<and>
     evaluation_after (drop (length (move_annotations_table w)) (move_annotations_table w') ! i) =
       evaluation pa"
proof -
  from annotate_game_mainline [OF run] i obtain board mainline anns w0 w1 k where
    w0: "engine_calls w0 = engine_calls w" and
    loop: "annotate_mainline d gid board 1 mainline [] w0 = (Inr anns, w1)" and
    k: "k \<le> length anns" and
    rows: "move_annotations_table w' = move_annotations_table w @ take k anns"
    by auto
  from rows i k have ik: "i < k" and
    at: "drop (length (move_annotations_table w)) (move_annotations_table w') ! i = anns ! i"
    by simp_all
  from annotate_mainline_replies [OF loop] ik k w0 show ?thesis
    unfolding at by auto
qed

lemma annotate_game_fresh_rows:
  assumes run: "annotate_game d gid uid w = (Inr response, w')"
    and g: "stored_game gid w = Some g" and fresh: "\<not> analyzed g"
  shows "annotations response =
       map MoveAnnotation.truncate
         (drop (length (move_annotations_table w)) (move_annotations_table w')) \<and>
     engine_calls w' =
       engine_calls w @ concat (map (\<lambda>a. [fen_before a, fen_after a]) (annotations response))"
proof -
  from annotate_game_mainline [OF run] g fresh obtain board mainline anns w0 w1 where
    w0: "engine_calls w0 = engine_calls w" and
    loop: "annotate_mainline d gid board 1 mainline [] w0 = (Inr anns, w1)" and
    rows: "move_annotations_table w' = move_annotations_table w @ anns" and
    calls: "engine_calls w' = engine_calls w1" and
    resp: "annotations response = map MoveAnnotation.truncate anns"
    by auto
  from annotate_mainline_replies [OF loop] have
    "engine_calls w1 = engine_calls w0 @ concat (map (\<lambda>a. [fen_before a, fen_after a]) anns)"
    by auto
  with w0 calls rows resp show ?thesis
    by (simp add: map_concat comp_def)
qed

text \<open>A ply of Black evaluated \<open>-3.99\<close> before and \<open>-1.99\<close> after: the change is the
  float \<open>-2.0\<close>, a mistake, where the exact difference would be below \<open>-2\<close>.\<close>

lemma annotate_ply_rounds:
  "evaluation_change (annotate_ply gid n s u ''black'' fb fa
      \<lparr>evaluation = - (2246170314151035 / 562949953421312), best_move = bm\<rparr>
      \<lparr>evaluation = - (8962163258467287 / 4503599627370496), best_move = bm'\<rparr>) = - 2 \<and>
   classification (annotate_ply gid n s u ''black'' fb fa
      \<lparr>evaluation = - (2246170314151035 / 562949953421312), best_move = bm\<rparr>
      \<lparr>evaluation = - (8962163258467287 / 4503599627370496), best_move = bm'\<rparr>) = ''mistake''"
  by (simp add: float_sub_tie classify_move_def)

section \<open>Properties\<close>

subsection \<open>The threshold table of \<^verbatim>\<open>classify_move\<close>\<close>

text \<open>
  C3. For every real \<open>x\<close>, \<open>classify_move x\<close> follows the threshold table, each
  bucket including its lower bound and excluding its upper bound: below \<open>-2.0\<close>
  ``blunder'', from \<open>-2.0\<close> up to \<open>-1.0\<close> ``mistake'', from \<open>-1.0\<close> up to \<open>-0.5\<close>
  ``inaccuracy'', from \<open>-0.5\<close> up to \<open>0.1\<close> ``good'', from \<open>0.1\<close> up to \<open>0.5\<close>
  ``great'', and from \<open>0.5\<close> on ``excellent''; the boundary values of the
  specification are classified as it says.
\<close>

theorem classify_move_table:
  "(x < -2.0 \<longrightarrow> classify_move x = ''blunder'') \<and>
   (-2.0 \<le> x \<and> x < -1.0 \<longrightarrow> classify_move x = ''mistake'') \<and>
   (-1.0 \<le> x \<and> x < -0.5 \<longrightarrow> classify_move x = ''inaccuracy'') \<and>
   (-0.5 \<le> x \<and> x < 0.1 \<longrightarrow> classify_move x = ''good'') \<and>
   (0.1 \<le> x \<and> x < 0.5 \<longrightarrow> classify_move x = ''great'') \<and>
   (0.5 \<le> x \<longrightarrow> classify_move x = ''excellent'') \<and>
   classify_move (-2.0) = ''mistake'' \<and>
   classify_move (-2.0001) = ''blunder'' \<and>
   classify_move 0.1 = ''great'' \<and>
   classify_move 0.0999 = ''good'' \<and>
   classify_move 0.5 = ''excellent'' \<and>
   classify_move 0.4999 = ''great''"
  by (simp add: classify_move_def)

theorem classify_move_table_witness:
  "(- 2.0001::real) < -2.0 \<and> classify_move (- 2.0001) = ''blunder'' \<and>
   (-2.0::real) \<le> - 1.5 \<and> (- 1.5::real) < -1.0 \<and> classify_move (- 1.5) = ''mistake'' \<and>
   (-1.0::real) \<le> - 1.0 \<and> (- 1.0::real) < -0.5 \<and> classify_move (- 1.0) = ''inaccuracy'' \<and>
   (-0.5::real) \<le> 0 \<and> (0::real) < 0.1 \<and> classify_move 0 = ''good'' \<and>
   (0.1::real) \<le> 0.3 \<and> (0.3::real) < 0.5 \<and> classify_move 0.3 = ''great'' \<and>
   (0.5::real) \<le> 7 \<and> classify_move 7 = ''excellent''"
  using classify_move_table [of "- 2.0001"] classify_move_table [of "- 1.5"]
    classify_move_table [of "- 1.0"] classify_move_table [of 0]
    classify_move_table [of "0.3"] classify_move_table [of 7]
  by simp

subsection \<open>Book moves\<close>

text \<open>
  C9. Every annotation that \<^verbatim>\<open>annotate_game\<close> produces has \<open>is_book_move\<close> false: the rows
  an execution appends to the annotation table, whatever its outcome, and the
  annotations of the response for a game annotated afresh.
\<close>

theorem annotate_game_no_book_move:
  assumes run: "annotate_game d gid uid w = (r, w')"
  shows "(\<forall>a \<in> set (drop (length (move_annotations_table w)) (move_annotations_table w')).
           \<not> is_book_move a) \<and>
         (\<forall>response g. r = Inr response \<and> stored_game gid w = Some g \<and> \<not> analyzed g \<longrightarrow>
            (\<forall>a \<in> set (annotations response). \<not> is_book_move a))"
proof -
  have rows: "\<not> is_book_move a"
    if "a \<in> set (drop (length (move_annotations_table w)) (move_annotations_table w'))" for a
    using annotate_game_new_rows [OF run that] by (auto simp: plies_book_move)
  have resp: "\<not> is_book_move a"
    if "r = Inr response" "stored_game gid w = Some g" "\<not> analyzed g"
      "a \<in> set (annotations response)" for response g a
  proof -
    from run that(1) have "annotate_game d gid uid w = (Inr response, w')" by simp
    from annotate_game_fresh_annotations [OF this that(2,3,4)]
    show ?thesis by (auto simp: plies_book_move)
  qed
  from rows resp show ?thesis by blast
qed

theorem annotate_game_no_book_move_witness:
  "annotate_game sample_ok ''g1'' ''u1'' sample_world = (Inr sample_response, sample_world_annotated) \<and>
   stored_game ''g1'' sample_world =
     Some \<lparr>id_row = ''g1'', user_id = ''u1'', analyzed = False,
           pgn = Some ''1. e4 e5'', moves_only = None\<rparr> \<and>
   drop (length (move_annotations_table sample_world))
     (move_annotations_table sample_world_annotated) = sample_rows \<and>
   list_all (\<lambda>a. \<not> is_book_move a) sample_rows \<and>
   list_all (\<lambda>a. \<not> is_book_move a) (annotations sample_response)"
  using annotate_game_no_book_move [OF sample_run] sample_run sample_stored
  by (simp add: sample_world_def sample_world_annotated_def list_all_iff)

subsection \<open>The evaluation change\<close>

text \<open>
  C4. For every ply that \<^verbatim>\<open>annotate_game\<close> annotates, \<open>evaluation_before\<close> and
  \<open>evaluation_after\<close> are the evaluations that the engine returned for the position
  before and the position after the ply (the calls number \<open>2 i\<close> and \<open>2 i + 1\<close> of the
  execution, for the ply of index \<open>i\<close>), and \<open>evaluation_change\<close> is taken from the
  mover's side: it is the float difference \<open>evaluation_after - evaluation_before\<close> when
  the colour is white and \<open>evaluation_before - evaluation_after\<close> when it is black. The
  classification is \<open>classify_move\<close> of that change, and a positive change means that the
  evaluation went up for a White mover and down for a Black mover. This holds for the
  rows an execution appends to the annotation table and for the annotations of the
  response for a game annotated afresh. A Black ply evaluated \<open>0.5\<close> before and \<open>0.2\<close>
  after has the change \<open>0.3\<close>, classified ``great''.
\<close>

theorem evaluation_change_of_mover:
  assumes run: "annotate_game d gid uid w = (r, w')"
  shows "(\<forall>i a. i < length (drop (length (move_annotations_table w)) (move_annotations_table w')) \<and>
            a = drop (length (move_annotations_table w)) (move_annotations_table w') ! i \<longrightarrow>
            (\<exists>pb pa.
               evaluate_position d (length (engine_calls w) + 2 * i) (fen_before a) = Inr pb \<and>
               evaluate_position d (length (engine_calls w) + 2 * i + 1) (fen_after a) = Inr pa \<and>
               evaluation_before a = evaluation pb \<and> evaluation_after a = evaluation pa) \<and>
            (color a = ''white'' \<and>
               evaluation_change a = float_sub (evaluation_after a) (evaluation_before a) \<or>
             color a = ''black'' \<and>
               evaluation_change a = float_sub (evaluation_before a) (evaluation_after a)) \<and>
            classification a = classify_move (evaluation_change a) \<and>
            (0 < evaluation_change a \<longrightarrow>
               (if color a = ''black'' then evaluation_after a < evaluation_before a
                else evaluation_before a < evaluation_after a))) \<and>
         (\<forall>response g. r = Inr response \<and> stored_game gid w = Some g \<and> \<not> analyzed g \<longrightarrow>
            engine_calls w' =
              engine_calls w @ concat (map (\<lambda>a. [fen_before a, fen_after a]) (annotations response)) \<and>
            (\<forall>i a. i < length (annotations response) \<and> a = annotations response ! i \<longrightarrow>
               (\<exists>pb pa.
                  evaluate_position d (length (engine_calls w) + 2 * i) (fen_before a) = Inr pb \<and>
                  evaluate_position d (length (engine_calls w) + 2 * i + 1) (fen_after a) = Inr pa \<and>
                  evaluation_before a = evaluation pb \<and> evaluation_after a = evaluation pa) \<and>
               (color a = ''white'' \<and>
                  evaluation_change a = float_sub (evaluation_after a) (evaluation_before a) \<or>
                color a = ''black'' \<and>
                  evaluation_change a = float_sub (evaluation_before a) (evaluation_after a)) \<and>
               classification a = classify_move (evaluation_change a) \<and>
               (0 < evaluation_change a \<longrightarrow>
                  (if color a = ''black'' then evaluation_after a < evaluation_before a
                   else evaluation_before a < evaluation_after a)))) \<and>
         evaluation_change (annotate_ply gid n s u ''black'' fb fa
            \<lparr>evaluation = 0.5, best_move = bm\<rparr>
            \<lparr>evaluation = double_round 0.2, best_move = bm'\<rparr>) = double_round 0.3 \<and>
         classification (annotate_ply gid n s u ''black'' fb fa
            \<lparr>evaluation = 0.5, best_move = bm\<rparr>
            \<lparr>evaluation = double_round 0.2, best_move = bm'\<rparr>) = ''great''"
proof -
  let ?rows = "drop (length (move_annotations_table w)) (move_annotations_table w')"
  have rows: "(\<exists>pb pa.
         evaluate_position d (length (engine_calls w) + 2 * i) (fen_before (?rows ! i)) = Inr pb \<and>
         evaluate_position d (length (engine_calls w) + 2 * i + 1) (fen_after (?rows ! i)) = Inr pa \<and>
         evaluation_before (?rows ! i) = evaluation pb \<and>
         evaluation_after (?rows ! i) = evaluation pa) \<and>
      (color (?rows ! i) = ''white'' \<and>
         evaluation_change (?rows ! i) =
           float_sub (evaluation_after (?rows ! i)) (evaluation_before (?rows ! i)) \<or>
       color (?rows ! i) = ''black'' \<and>
         evaluation_change (?rows ! i) =
           float_sub (evaluation_before (?rows ! i)) (evaluation_after (?rows ! i))) \<and>
      classification (?rows ! i) = classify_move (evaluation_change (?rows ! i)) \<and>
      (0 < evaluation_change (?rows ! i) \<longrightarrow>
         (if color (?rows ! i) = ''black''
          then evaluation_after (?rows ! i) < evaluation_before (?rows ! i)
          else evaluation_before (?rows ! i) < evaluation_after (?rows ! i)))"
    if i: "i < length ?rows" for i
  proof -
    from i have "?rows ! i \<in> set ?rows" by (rule nth_mem)
    from annotate_game_new_rows [OF run this] obtain board number moves answers where
      "?rows ! i \<in> set (plies d gid board number moves answers)"
      by blast
    from plies_change [OF this] have
      "(color (?rows ! i) = ''white'' \<and>
         evaluation_change (?rows ! i) =
           float_sub (evaluation_after (?rows ! i)) (evaluation_before (?rows ! i)) \<or>
       color (?rows ! i) = ''black'' \<and>
         evaluation_change (?rows ! i) =
           float_sub (evaluation_before (?rows ! i)) (evaluation_after (?rows ! i))) \<and>
      classification (?rows ! i) = classify_move (evaluation_change (?rows ! i)) \<and>
      (0 < evaluation_change (?rows ! i) \<longrightarrow>
         (if color (?rows ! i) = ''black''
          then evaluation_after (?rows ! i) < evaluation_before (?rows ! i)
          else evaluation_before (?rows ! i) < evaluation_after (?rows ! i)))"
      by (auto simp: float_sub_minus dest: float_sub_positive)
    with annotate_game_replies [OF run i] show ?thesis by (rule conjI)
  qed
  have resp: "engine_calls w' =
        engine_calls w @ concat (map (\<lambda>a. [fen_before a, fen_after a]) (annotations response)) \<and>
      (\<forall>i a. i < length (annotations response) \<and> a = annotations response ! i \<longrightarrow>
         (\<exists>pb pa.
            evaluate_position d (length (engine_calls w) + 2 * i) (fen_before a) = Inr pb \<and>
            evaluate_position d (length (engine_calls w) + 2 * i + 1) (fen_after a) = Inr pa \<and>
            evaluation_before a = evaluation pb \<and> evaluation_after a = evaluation pa) \<and>
         (color a = ''white'' \<and>
            evaluation_change a = float_sub (evaluation_after a) (evaluation_before a) \<or>
          color a = ''black'' \<and>
            evaluation_change a = float_sub (evaluation_before a) (evaluation_after a)) \<and>
         classification a = classify_move (evaluation_change a) \<and>
         (0 < evaluation_change a \<longrightarrow>
            (if color a = ''black'' then evaluation_after a < evaluation_before a
             else evaluation_before a < evaluation_after a)))"
    if "r = Inr response" "stored_game gid w = Some g" "\<not> analyzed g" for response g
  proof -
    from run that(1) have "annotate_game d gid uid w = (Inr response, w')" by simp
    from annotate_game_fresh_rows [OF this that(2,3)] have
      anns: "annotations response = map MoveAnnotation.truncate ?rows" and
      calls: "engine_calls w' =
        engine_calls w @ concat (map (\<lambda>a. [fen_before a, fen_after a]) (annotations response))"
      by simp_all
    have "(\<exists>pb pa.
            evaluate_position d (length (engine_calls w) + 2 * i) (fen_before a) = Inr pb \<and>
            evaluate_position d (length (engine_calls w) + 2 * i + 1) (fen_after a) = Inr pa \<and>
            evaluation_before a = evaluation pb \<and> evaluation_after a = evaluation pa) \<and>
         (color a = ''white'' \<and>
            evaluation_change a = float_sub (evaluation_after a) (evaluation_before a) \<or>
          color a = ''black'' \<and>
            evaluation_change a = float_sub (evaluation_before a) (evaluation_after a)) \<and>
         classification a = classify_move (evaluation_change a) \<and>
         (0 < evaluation_change a \<longrightarrow>
            (if color a = ''black'' then evaluation_after a < evaluation_before a
             else evaluation_before a < evaluation_after a))"
      if "i < length (annotations response)" "a = annotations response ! i" for i a
    proof -
      from that(1) have i: "i < length ?rows" by (simp add: anns)
      with that(2) have a: "a = MoveAnnotation.truncate (?rows ! i)"
        by (simp only: anns nth_map)
      from rows [OF i] show ?thesis unfolding a truncate_fields .
    qed
    with calls show ?thesis by blast
  qed
  have example: "evaluation_change (annotate_ply gid n s u ''black'' fb fa
            \<lparr>evaluation = 0.5, best_move = bm\<rparr>
            \<lparr>evaluation = double_round 0.2, best_move = bm'\<rparr>) = double_round 0.3"
    "classification (annotate_ply gid n s u ''black'' fb fa
            \<lparr>evaluation = 0.5, best_move = bm\<rparr>
            \<lparr>evaluation = double_round 0.2, best_move = bm'\<rparr>) = ''great''"
    by (simp_all add: classify_move_def float_sub_def double_values)
  from rows resp example show ?thesis by blast
qed

theorem evaluation_change_of_mover_witness:
  "annotate_game sample_ok ''g1'' ''u1'' sample_world = (Inr sample_response, sample_world_annotated) \<and>
   stored_game ''g1'' sample_world =
     Some \<lparr>id_row = ''g1'', user_id = ''u1'', analyzed = False,
           pgn = Some ''1. e4 e5'', moves_only = None\<rparr> \<and>
   drop (length (move_annotations_table sample_world))
     (move_annotations_table sample_world_annotated) = sample_rows \<and>
   length (engine_calls sample_world) = 0 \<and>
   engine_calls sample_world_annotated =
     [sample_start, sample_after_e4, sample_after_e4, sample_after_e5] \<and>
   length (annotations sample_response) = 2 \<and>
   evaluate_position sample_ok 0 sample_start = Inr \<lparr>evaluation = 0, best_move = Some ''e2e4''\<rparr> \<and>
   evaluate_position sample_ok 1 sample_after_e4 =
     Inr \<lparr>evaluation = 0.5, best_move = Some ''e2e4''\<rparr> \<and>
   color (annotations sample_response ! 0) = ''white'' \<and>
   fen_before (annotations sample_response ! 0) = sample_start \<and>
   fen_after (annotations sample_response ! 0) = sample_after_e4 \<and>
   evaluation_before (annotations sample_response ! 0) = 0 \<and>
   evaluation_after (annotations sample_response ! 0) = 0.5 \<and>
   evaluation_change (annotations sample_response ! 0) = float_sub 0.5 0 \<and>
   evaluation_change (annotations sample_response ! 0) = 0.5 \<and>
   classification (annotations sample_response ! 0) = ''excellent'' \<and>
   evaluate_position sample_ok 2 sample_after_e4 =
     Inr \<lparr>evaluation = 0.5, best_move = Some ''e2e4''\<rparr> \<and>
   evaluate_position sample_ok 3 sample_after_e5 =
     Inr \<lparr>evaluation = double_round 0.2, best_move = Some ''e2e4''\<rparr> \<and>
   color (annotations sample_response ! 1) = ''black'' \<and>
   fen_before (annotations sample_response ! 1) = sample_after_e4 \<and>
   fen_after (annotations sample_response ! 1) = sample_after_e5 \<and>
   evaluation_before (annotations sample_response ! 1) = 0.5 \<and>
   evaluation_after (annotations sample_response ! 1) = double_round 0.2 \<and>
   evaluation_change (annotations sample_response ! 1) = float_sub 0.5 (double_round 0.2) \<and>
   evaluation_change (annotations sample_response ! 1) = double_round 0.3 \<and>
   double_round 0.3 = 5404319552844595 / 18014398509481984 \<and>
   classification (annotations sample_response ! 1) = ''great'' \<and>
   0 < evaluation_change (annotations sample_response ! 1) \<and>
   evaluation_after (annotations sample_response ! 1) <
     evaluation_before (annotations sample_response ! 1)"
proof -
  have rows: "drop (length (move_annotations_table sample_world))
     (move_annotations_table sample_world_annotated) = sample_rows"
    by (simp add: sample_world_def sample_world_annotated_def)
  have calls: "length (engine_calls sample_world) = 0"
    "engine_calls sample_world_annotated =
       [sample_start, sample_after_e4, sample_after_e4, sample_after_e5]"
    by (simp_all add: sample_world_def sample_world_annotated_def)
  have engine: "evaluate_position sample_ok 0 sample_start =
      Inr \<lparr>evaluation = 0, best_move = Some ''e2e4''\<rparr>"
    "evaluate_position sample_ok 1 sample_after_e4 =
      Inr \<lparr>evaluation = 0.5, best_move = Some ''e2e4''\<rparr>"
    "evaluate_position sample_ok 2 sample_after_e4 =
      Inr \<lparr>evaluation = 0.5, best_move = Some ''e2e4''\<rparr>"
    "evaluate_position sample_ok 3 sample_after_e5 =
      Inr \<lparr>evaluation = double_round 0.2, best_move = Some ''e2e4''\<rparr>"
    by (simp_all add: sample_ok_def sample_deps_def sample_engine_def sample_start_def
          sample_after_e4_def sample_after_e5_def)
  have plies: "annotations sample_response ! 0 =
      \<lparr>move_number = 1, move_san = ''e4'', move_uci = ''e2e4'', color = ''white'',
       fen_before = sample_start, fen_after = sample_after_e4,
       evaluation_before = 0, evaluation_after = 0.5, evaluation_change = 0.5,
       classification = ''excellent'', is_best_move = True, is_book_move = False\<rparr>"
    "annotations sample_response ! 1 =
      \<lparr>move_number = 1, move_san = ''e5'', move_uci = ''e7e5'', color = ''black'',
       fen_before = sample_after_e4, fen_after = sample_after_e5,
       evaluation_before = 0.5, evaluation_after = double_round 0.2,
       evaluation_change = double_round 0.3,
       classification = ''great'', is_best_move = False, is_book_move = False\<rparr>"
    "length (annotations sample_response) = 2"
    by (simp_all add: sample_response_def)
  have floats: "float_sub 0.5 0 = 0.5" "float_sub 0.5 (double_round 0.2) = double_round 0.3"
    "double_round 0.3 = 5404319552844595 / 18014398509481984"
    "0 < double_round 0.3" "double_round 0.2 < 0.5"
    by (simp_all add: float_sub_def double_values)
  from evaluation_change_of_mover [OF sample_run] sample_run sample_stored rows calls engine floats
  show ?thesis unfolding plies by simp
qed

subsection \<open>Continuity of the positions\<close>

text \<open>
  C7. In the annotations of a game annotated afresh, the position after a ply is
  the position before the next ply.
\<close>

theorem positions_continue:
  assumes run: "annotate_game d gid uid w = (Inr response, w')"
    and g: "stored_game gid w = Some g" and fresh: "\<not> analyzed g"
  shows "\<forall>i. Suc i < length (annotations response) \<longrightarrow>
     fen_after (annotations response ! i) = fen_before (annotations response ! Suc i)"
proof -
  from annotate_game_fresh [OF run g fresh] obtain board mainline answers where
    anns: "annotations response =
      map MoveAnnotation.truncate (plies d gid board 1 mainline answers)"
    by blast
  show ?thesis
  proof (intro allI impI)
    fix i
    assume "Suc i < length (annotations response)"
    then have i: "Suc i < length (plies d gid board 1 mainline answers)"
      by (simp add: anns)
    from plies_continuity [OF i] i show
      "fen_after (annotations response ! i) = fen_before (annotations response ! Suc i)"
      by (simp add: anns)
  qed
qed

theorem positions_continue_witness:
  "annotate_game sample_ok ''g1'' ''u1'' sample_world = (Inr sample_response, sample_world_annotated) \<and>
   stored_game ''g1'' sample_world =
     Some \<lparr>id_row = ''g1'', user_id = ''u1'', analyzed = False,
           pgn = Some ''1. e4 e5'', moves_only = None\<rparr> \<and>
   Suc 0 < length (annotations sample_response) \<and>
   fen_after (annotations sample_response ! 0) = sample_after_e4 \<and>
   fen_before (annotations sample_response ! Suc 0) = sample_after_e4"
proof -
  have "\<not> analyzed \<lparr>id_row = ''g1'', user_id = ''u1'', analyzed = False,
           pgn = Some ''1. e4 e5'', moves_only = None\<rparr>"
    by simp
  from positions_continue [OF sample_run sample_stored this] sample_run sample_stored
  show ?thesis by (simp add: sample_response_def)
qed


subsection \<open>Colours and move numbers\<close>

text \<open>
  C8, as the code has it. In the annotations of a game annotated afresh there is
  one annotation per ply of the main line; the first one has move number 1 and the
  colour of the side to move in the starting position of the game (White, unless
  the record sets up a position with Black to move); the move number grows by one
  exactly after a ply recorded as black. When the rules library passes the turn at
  every move, the colours alternate from the starting side, and the \<open>k\<close>-th ply has
  the move number \<open>\<lceil>k / 2\<rceil>\<close> when White starts and \<open>\<lfloor>k / 2\<rfloor> + 1\<close> when Black starts.
\<close>

theorem colors_and_move_numbers:
  assumes run: "annotate_game d gid uid w = (Inr response, w')"
    and g: "stored_game gid w = Some g" and fresh: "\<not> analyzed g"
    and parsed: "read_game d (pgn_of g) = Some (board, mainline)"
  shows "length (annotations response) = length mainline \<and>
     (annotations response \<noteq> [] \<longrightarrow>
        move_number (hd (annotations response)) = 1 \<and>
        color (hd (annotations response)) = (if turn d board then ''white'' else ''black'')) \<and>
     (\<forall>i. Suc i < length (annotations response) \<longrightarrow>
        move_number (annotations response ! Suc i) =
          move_number (annotations response ! i)
            + (if color (annotations response ! i) = ''black'' then 1 else 0)) \<and>
     ((\<forall>b m. turn d (push d b m) = (\<not> turn d b)) \<longrightarrow>
        (\<forall>i < length mainline.
           color (annotations response ! i) =
             (if turn d board = even i then ''white'' else ''black'') \<and>
           move_number (annotations response ! i) =
             (if turn d board then \<lceil>real (Suc i) / 2\<rceil> else \<lfloor>real (Suc i) / 2\<rfloor> + 1)))"
proof -
  from annotate_game_fresh [OF run g fresh] parsed obtain answers where
    len: "length answers = length mainline" and
    anns: "annotations response =
      map MoveAnnotation.truncate (plies d gid board 1 mainline answers)"
    by auto
  let ?plies = "plies d gid board 1 mainline answers"
  have length: "length (annotations response) = length mainline"
    by (simp add: anns len length_plies)
  have first: "move_number (hd (annotations response)) = 1 \<and>
      color (hd (annotations response)) = (if turn d board then ''white'' else ''black'')"
    if "annotations response \<noteq> []"
  proof -
    from that have "?plies \<noteq> []" by (simp add: anns)
    from plies_first [OF this] this show ?thesis by (simp add: anns hd_map)
  qed
  have step: "move_number (annotations response ! Suc i) =
      move_number (annotations response ! i)
        + (if color (annotations response ! i) = ''black'' then 1 else 0)"
    if "Suc i < length (annotations response)" for i
  proof -
    from that have i: "Suc i < length ?plies" by (simp add: anns)
    from plies_numbering [OF i] i show ?thesis by (simp add: anns)
  qed
  have alternate: "color (annotations response ! i) =
        (if turn d board = even i then ''white'' else ''black'') \<and>
      move_number (annotations response ! i) =
        (if turn d board then \<lceil>real (Suc i) / 2\<rceil> else \<lfloor>real (Suc i) / 2\<rfloor> + 1)"
    if flips: "\<forall>b m. turn d (push d b m) = (\<not> turn d b)" and "i < length mainline" for i
  proof -
    from that have i: "i < length ?plies" by (simp add: len length_plies)
    have up: "\<lceil>real (Suc i) / 2\<rceil> = 1 + int (i div 2)"
    proof -
      have "\<lceil>real (Suc i) / 2\<rceil> = \<lceil>real_of_int (int (Suc i)) / real_of_int 2\<rceil>" by simp
      also have "\<dots> = - (- int (Suc i) div 2)" by (rule ceiling_divide_eq_div)
      also have "\<dots> = 1 + int (i div 2)" by (simp add: zdiv_int)
      finally show ?thesis .
    qed
    have down: "\<lfloor>real (Suc i) / 2\<rfloor> + 1 = 1 + int (Suc i div 2)"
    proof -
      have "\<lfloor>real (Suc i) / 2\<rfloor> = \<lfloor>real_of_int (int (Suc i)) / real_of_int 2\<rfloor>" by simp
      also have "\<dots> = int (Suc i) div 2" by (rule floor_divide_of_int_eq)
      finally show ?thesis by (simp add: zdiv_int)
    qed
    from plies_alternate [OF flips i] i show ?thesis
      unfolding up down by (simp add: anns)
  qed
  from length first step alternate show ?thesis by blast
qed

text \<open>
  The claim as stated fails on a game whose record sets up a position with Black to
  move. Game \<open>g3\<close> of the sample world has such a record: its \<^verbatim>\<open>FEN\<close> header gives the
  position after \<^verbatim>\<open>1. e4\<close>, and its only ply, \<^verbatim>\<open>1... e5\<close>, is recorded as black.
\<close>

theorem colors_start_white_counterexample:
  "stored_game ''g3'' sample_world =
     Some \<lparr>id_row = ''g3'', user_id = ''u1'', analyzed = False,
           pgn = Some sample_setup_record, moves_only = None\<rparr> \<and>
   sample_setup_record =
     ''[SetUp \"1\"]\<newline>[FEN \"rnbqkbnr/pppppppp/8/8/4P3/8/PPPP1PPP/RNBQKBNR b KQkq - 0 1\"]\<newline>\<newline>1... e5 *'' \<and>
   read_game sample_ok sample_setup_record = Some ((False, [''e2e4'']), [''e7e5'']) \<and>
   \<not> turn sample_ok (False, [''e2e4'']) \<and>
   fst (annotate_game sample_ok ''g3'' ''u1'' sample_world) =
     Inr \<lparr>game_id_r = ''g3'', total_moves = 1,
          annotations =
            [\<lparr>move_number = 1, move_san = ''e5'', move_uci = ''e7e5'', color = ''black'',
              fen_before = ''rnbqkbnr/pppppppp/8/8/4P3/8/PPPP1PPP/RNBQKBNR b KQkq - 0 1'',
              fen_after = ''rnbqkbnr/pppp1ppp/8/4p3/4P3/8/PPPP1PPP/RNBQKBNR w KQkq - 0 2'',
              evaluation_before = 0.5, evaluation_after = double_round 0.2,
              evaluation_change = double_round 0.3,
              classification = ''great'', is_best_move = False, is_book_move = False\<rparr>]\<rparr> \<and>
   color (hd (annotations (projr (fst (annotate_game sample_ok ''g3'' ''u1'' sample_world)))))
     \<noteq> ''white''"
  by (simp add: route_defs sample_defs)

theorem colors_and_move_numbers_witness:
  "annotate_game sample_ok ''g1'' ''u1'' sample_world = (Inr sample_response, sample_world_annotated) \<and>
   stored_game ''g1'' sample_world =
     Some \<lparr>id_row = ''g1'', user_id = ''u1'', analyzed = False,
           pgn = Some ''1. e4 e5'', moves_only = None\<rparr> \<and>
   read_game sample_ok (pgn_of \<lparr>id_row = ''g1'', user_id = ''u1'', analyzed = False,
           pgn = Some ''1. e4 e5'', moves_only = None\<rparr>) = Some ((True, []), [''e2e4'', ''e7e5'']) \<and>
   (\<forall>b m. turn sample_ok (push sample_ok b m) = (\<not> turn sample_ok b)) \<and>
   length (annotations sample_response) = 2 \<and>
   color (annotations sample_response ! 0) = ''white'' \<and>
   color (annotations sample_response ! 1) = ''black'' \<and>
   move_number (annotations sample_response ! 0) = \<lceil>real (Suc 0) / 2\<rceil> \<and>
   move_number (annotations sample_response ! 1) = \<lceil>real (Suc 1) / 2\<rceil>"
proof -
  let ?g = "\<lparr>id_row = ''g1'', user_id = ''u1'', analyzed = False,
           pgn = Some ''1. e4 e5'', moves_only = None\<rparr>"
  have fresh: "\<not> analyzed ?g" by simp
  have parsed: "read_game sample_ok (pgn_of ?g) = Some ((True, []), [''e2e4'', ''e7e5''])"
    by (simp add: sample_defs pgn_of_def)
  have flips: "\<forall>b m. turn sample_ok (push sample_ok b m) = (\<not> turn sample_ok b)"
    by (simp add: sample_defs)
  have white: "turn sample_ok (True, [])" by (simp add: sample_defs)
  from colors_and_move_numbers [OF sample_run sample_stored fresh parsed] flips white
  have "color (annotations sample_response ! 0) = ''white'' \<and>
        color (annotations sample_response ! 1) = ''black'' \<and>
        move_number (annotations sample_response ! 0) = \<lceil>real (Suc 0) / 2\<rceil> \<and>
        move_number (annotations sample_response ! 1) = \<lceil>real (Suc 1) / 2\<rceil>"
    by (simp add: All_less_Suc)
  with sample_run sample_stored parsed flips show ?thesis
    by (simp add: sample_response_def)
qed

subsection \<open>Idempotence\<close>

text \<open>
  C1. For a game whose \<open>analyzed\<close> flag is true and a requester who owns it,
  \<^verbatim>\<open>annotate_game\<close> changes neither table and calls the engine not once. When its two
  read requests are answered it returns the persisted annotations: the rows of the
  annotation table that belong to this game, all of them and no others, in the order
  of their move numbers. Hence two calls in a row return the same annotations, the
  second one again without a write or an engine call; and when the state is the one
  left by the call that annotated the game afresh (no row of the game was stored
  before), the annotations returned are those that call returned.
\<close>

theorem annotate_game_idempotent:
  assumes g: "stored_game gid w = Some g" and own: "user_id g = uid" and analyzed: "analyzed g"
  shows "games_table (snd (annotate_game d gid uid w)) = games_table w \<and>
     move_annotations_table (snd (annotate_game d gid uid w)) = move_annotations_table w \<and>
     engine_calls (snd (annotate_game d gid uid w)) = engine_calls w \<and>
     (execute_fails d (db_requests w) = None \<and> execute_fails d (Suc (db_requests w)) = None \<longrightarrow>
        (let rows = sort_key move_number
                      (filter (\<lambda>a. game_id a = gid) (move_annotations_table w))
         in annotate_game d gid uid w =
              (Inr \<lparr>game_id_r = gid,
                    total_moves = int (length rows),
                    annotations = map MoveAnnotation.truncate rows\<rparr>,
               w\<lparr>db_requests := Suc (Suc (db_requests w))\<rparr>) \<and>
            set rows = {a \<in> set (move_annotations_table w). game_id a = gid} \<and>
            length rows = length (filter (\<lambda>a. game_id a = gid) (move_annotations_table w)) \<and>
            sorted (map move_number rows))) \<and>
     (\<forall>first second.
        fst (annotate_game d gid uid w) = Inr first \<and>
        fst (annotate_game d gid uid (snd (annotate_game d gid uid w))) = Inr second \<longrightarrow>
        second = first \<and>
        games_table (snd (annotate_game d gid uid (snd (annotate_game d gid uid w)))) =
          games_table w \<and>
        move_annotations_table (snd (annotate_game d gid uid (snd (annotate_game d gid uid w)))) =
          move_annotations_table w \<and>
        engine_calls (snd (annotate_game d gid uid (snd (annotate_game d gid uid w)))) =
          engine_calls w) \<and>
     (\<forall>w0 g0 first.
        annotate_game d gid uid w0 = (Inr first, w) \<and>
        stored_game gid w0 = Some g0 \<and> \<not> analyzed g0 \<and>
        filter (\<lambda>a. game_id a = gid) (move_annotations_table w0) = [] \<and>
        execute_fails d (db_requests w) = None \<and> execute_fails d (Suc (db_requests w)) = None \<longrightarrow>
        fst (annotate_game d gid uid w) = Inr first)"
proof -
  let ?w1 = "snd (annotate_game d gid uid w)"
  let ?rows = "sort_key move_number (filter (\<lambda>a. game_id a = gid) (move_annotations_table w))"
  note first = annotate_game_analyzed [OF g own analyzed, of d]
  have "stored_game gid ?w1 = Some g" using g first by (simp add: stored_game_def)
  note second = annotate_game_analyzed [OF this own analyzed, of d]
  have stored: "fst (select_annotations gid w) = ?rows"
    by (simp add: select_annotations_def)
  have rows: "fst (select_annotations gid ?w1) = fst (select_annotations gid w)"
    using first by (simp add: select_annotations_def)
  have ok: "annotate_game d gid uid w =
          (Inr \<lparr>game_id_r = gid,
                total_moves = int (length ?rows),
                annotations = map MoveAnnotation.truncate ?rows\<rparr>,
           w\<lparr>db_requests := Suc (Suc (db_requests w))\<rparr>)"
    if "execute_fails d (db_requests w) = None" "execute_fails d (Suc (db_requests w)) = None"
    using that
    by (simp add: annotate_game_def annotate_game_try_analyzed [OF g own analyzed] stored)
  have those: "set ?rows = {a \<in> set (move_annotations_table w). game_id a = gid}"
    "length ?rows = length (filter (\<lambda>a. game_id a = gid) (move_annotations_table w))"
    "sorted (map move_number ?rows)"
    by auto
  have twice: "second = first"
    if "fst (annotate_game d gid uid w) = Inr first"
       "fst (annotate_game d gid uid ?w1) = Inr second" for first second
  proof -
    from first that(1) have "first = \<lparr>game_id_r = gid,
        total_moves = int (length (fst (select_annotations gid w))),
        annotations = map MoveAnnotation.truncate (fst (select_annotations gid w))\<rparr>"
      by blast
    moreover from second that(2) have "second = \<lparr>game_id_r = gid,
        total_moves = int (length (fst (select_annotations gid ?w1))),
        annotations = map MoveAnnotation.truncate (fst (select_annotations gid ?w1))\<rparr>"
      by blast
    ultimately show ?thesis by (simp only: rows)
  qed
  have frame2: "games_table (snd (annotate_game d gid uid ?w1)) = games_table w"
    "move_annotations_table (snd (annotate_game d gid uid ?w1)) = move_annotations_table w"
    "engine_calls (snd (annotate_game d gid uid ?w1)) = engine_calls w"
    using first second by simp_all
  from first have frame1: "games_table ?w1 = games_table w"
    "move_annotations_table ?w1 = move_annotations_table w"
    "engine_calls ?w1 = engine_calls w"
    by simp_all
  have again: "fst (annotate_game d gid uid w) = Inr first"
    if "annotate_game d gid uid w0 = (Inr first, w)" "stored_game gid w0 = Some g0"
      "\<not> analyzed g0" "filter (\<lambda>a. game_id a = gid) (move_annotations_table w0) = []"
      "execute_fails d (db_requests w) = None" "execute_fails d (Suc (db_requests w)) = None"
    for w0 g0 first
    using that by (rule annotate_game_again)
  from ok those have explicit:
    "execute_fails d (db_requests w) = None \<and> execute_fails d (Suc (db_requests w)) = None \<longrightarrow>
        (let rows = ?rows
         in annotate_game d gid uid w =
              (Inr \<lparr>game_id_r = gid,
                    total_moves = int (length rows),
                    annotations = map MoveAnnotation.truncate rows\<rparr>,
               w\<lparr>db_requests := Suc (Suc (db_requests w))\<rparr>) \<and>
            set rows = {a \<in> set (move_annotations_table w). game_id a = gid} \<and>
            length rows = length (filter (\<lambda>a. game_id a = gid) (move_annotations_table w)) \<and>
            sorted (map move_number rows))"
    unfolding Let_def by blast
  from frame1 frame2 explicit twice again show ?thesis by blast
qed

theorem annotate_game_idempotent_witness:
  "annotate_game sample_ok ''g1'' ''u1'' sample_world = (Inr sample_response, sample_world_annotated) \<and>
   filter (\<lambda>a. game_id a = ''g1'') (move_annotations_table sample_world) = [] \<and>
   stored_game ''g1'' sample_world_annotated =
     Some \<lparr>id_row = ''g1'', user_id = ''u1'', analyzed = True,
           pgn = Some ''1. e4 e5'', moves_only = None\<rparr> \<and>
   execute_fails sample_ok (db_requests sample_world_annotated) = None \<and>
   execute_fails sample_ok (Suc (db_requests sample_world_annotated)) = None \<and>
   annotate_game sample_ok ''g1'' ''u1'' sample_world_annotated =
     (Inr sample_response, sample_world_annotated\<lparr>db_requests := 6\<rparr>) \<and>
   fst (annotate_game sample_ok ''g1'' ''u1''
          (snd (annotate_game sample_ok ''g1'' ''u1'' sample_world_annotated))) =
     Inr sample_response \<and>
   stored_game ''g1'' sample_world_batch =
     Some \<lparr>id_row = ''g1'', user_id = ''u1'', analyzed = True,
           pgn = Some ''1. e4 e5'', moves_only = None\<rparr> \<and>
   length (move_annotations_table sample_world_batch) = 3 \<and>
   annotate_game sample_ok ''g1'' ''u1'' sample_world_batch =
     (Inr sample_response, sample_world_batch\<lparr>db_requests := 11\<rparr>)"
proof -
  let ?g = "\<lparr>id_row = ''g1'', user_id = ''u1'', analyzed = True,
           pgn = Some ''1. e4 e5'', moves_only = None\<rparr>"
  have g: "stored_game ''g1'' sample_world_annotated = Some ?g"
    by (simp add: stored_game_def sample_world_annotated_def sample_games_def set_analyzed_def)
  have g': "stored_game ''g1'' sample_world_batch = Some ?g"
    by (simp add: stored_game_def sample_world_batch_def sample_games_def set_analyzed_def)
  have own: "user_id ?g = ''u1''" and flag: "analyzed ?g" by simp_all
  have ok: "execute_fails sample_ok (db_requests sample_world_annotated) = None"
    "execute_fails sample_ok (Suc (db_requests sample_world_annotated)) = None"
    "execute_fails sample_ok (db_requests sample_world_batch) = None"
    "execute_fails sample_ok (Suc (db_requests sample_world_batch)) = None"
    by (simp_all add: sample_ok_def sample_deps_def no_faults_def)
  have rows: "sort_key move_number
      (filter (\<lambda>a. game_id a = ''g1'') (move_annotations_table sample_world_annotated)) = sample_rows"
    "sort_key move_number
      (filter (\<lambda>a. game_id a = ''g1'') (move_annotations_table sample_world_batch)) = sample_rows"
    by (simp_all add: sample_world_annotated_def sample_world_batch_def sample_rows_def)
  have resp: "\<lparr>game_id_r = ''g1'', total_moves = int (length sample_rows),
      annotations = map MoveAnnotation.truncate sample_rows\<rparr> = sample_response"
    by (simp add: sample_rows_def sample_response_def MoveAnnotation.truncate_def)
  have none: "filter (\<lambda>a. game_id a = ''g1'') (move_annotations_table sample_world) = []"
    "length (move_annotations_table sample_world_batch) = 3"
    by (simp_all add: sample_world_def sample_world_batch_def sample_rows_def)
  have again: "fst (annotate_game sample_ok ''g1'' ''u1''
                 (sample_world_annotated\<lparr>db_requests := 6\<rparr>)) = Inr sample_response"
    by (simp add: route_defs sample_defs)
  from annotate_game_idempotent [of "''g1''" sample_world_annotated ?g "''u1''" sample_ok,
      OF g own flag] ok
  have one: "annotate_game sample_ok ''g1'' ''u1'' sample_world_annotated =
     (Inr sample_response, sample_world_annotated\<lparr>db_requests := 6\<rparr>)"
    unfolding Let_def rows resp by (simp add: sample_world_annotated_def)
  from annotate_game_idempotent [of "''g1''" sample_world_batch ?g "''u1''" sample_ok,
      OF g' own flag] ok
  have two: "annotate_game sample_ok ''g1'' ''u1'' sample_world_batch =
     (Inr sample_response, sample_world_batch\<lparr>db_requests := 11\<rparr>)"
    unfolding Let_def rows resp by (simp add: sample_world_batch_def)
  from one two g g' ok again none sample_run show ?thesis by simp
qed

subsection \<open>Status codes\<close>

text \<open>Every failure of \<^verbatim>\<open>annotate_game\<close> leaves the route as an \<^verbatim>\<open>HTTPException\<close> of
  status 500.\<close>

lemma annotate_game_fails_500:
  "annotate_game d gid uid w = (Inl e, w') \<Longrightarrow> \<exists>detail. e = HTTPException 500 detail"
  by (auto simp: annotate_game_eq split: sum.splits)

text \<open>
  C5 says that a missing game gives status 404, a game of another user status 403 and
  a record that holds no game status 400. The code raises these exceptions inside
  its \<^verbatim>\<open>try\<close> statement, whose handler \<^verbatim>\<open>except Exception\<close> catches them and raises
  status 500 in their place. In the sample world, where game \<open>g9\<close> does not exist and
  game \<open>g2\<close> belongs to user \<open>u2\<close>, user \<open>u1\<close> gets status 500 for both; neither call
  writes to a table.
\<close>

theorem annotate_game_status_500:
  "stored_game ''g9'' sample_world = None \<and>
   fst (annotate_game sample_ok ''g9'' ''u1'' sample_world) =
     Inl (HTTPException 500 ''Error annotating game: 404: Game not found'') \<and>
   map_option user_id (stored_game ''g2'' sample_world) = Some ''u2'' \<and>
   fst (annotate_game sample_ok ''g2'' ''u1'' sample_world) =
     Inl (HTTPException 500 ''Error annotating game: 403: Unauthorized access to this game'') \<and>
   games_table (snd (annotate_game sample_ok ''g2'' ''u1'' sample_world)) = games_table sample_world \<and>
   move_annotations_table (snd (annotate_game sample_ok ''g2'' ''u1'' sample_world)) =
     move_annotations_table sample_world"
  by (simp add: route_defs sample_defs str_nat.simps)

subsection \<open>What an execution persists\<close>

text \<open>
  C2, as the code has it. An execution of \<^verbatim>\<open>annotate_game\<close> in which an engine call raises
  fails, with no annotation row written and the games table unchanged. Every
  execution either leaves both tables as they were, or works on a stored game that is
  not analyzed and appends the annotations of its first \<open>k\<close> plies, in order, to the
  annotation table: when it returns, \<open>k\<close> is the number of plies and the flag of the game
  is set; when it fails, a request to the database has raised and the games table is
  unchanged, so the flag is set only once every row is written. The rows are
  inserted one request at a time, so a request that raises after the first insertion
  leaves the rows inserted before it in the table.
\<close>

theorem annotate_game_persistence:
  assumes run: "annotate_game d gid uid w = (r, w')"
  shows "(failed_evaluations d w w' \<noteq> [] \<longrightarrow>
            isl r \<and> games_table w' = games_table w \<and>
            move_annotations_table w' = move_annotations_table w) \<and>
         (move_annotations_table w' = move_annotations_table w \<and> games_table w' = games_table w \<or>
          (\<exists>g board mainline answers k.
             stored_game gid w = Some g \<and> \<not> analyzed g \<and>
             read_game d (pgn_of g) = Some (board, mainline) \<and>
             length (plies d gid board 1 mainline answers) = length mainline \<and>
             k \<le> length mainline \<and>
             move_annotations_table w' =
               move_annotations_table w @ take k (plies d gid board 1 mainline answers) \<and>
             (if isl r then games_table w' = games_table w \<and> failed_requests d w w' \<noteq> []
              else k = length mainline \<and>
                games_table w' = map (set_analyzed gid) (games_table w))))"
proof -
  have engine: "isl r \<and> games_table w' = games_table w \<and>
      move_annotations_table w' = move_annotations_table w"
    if failed: "failed_evaluations d w w' \<noteq> []"
  proof (cases r)
    case (Inl e)
    from annotate_game_shape [OF run [unfolded Inl], unfolded sum.case]
    have "games_table w' = games_table w"
      "move_annotations_table w' = move_annotations_table w \<or> failed_evaluations d w w' = []"
      by blast+
    with failed Inl show ?thesis by simp
  next
    case (Inr response)
    from annotate_game_shape [OF run [unfolded Inr], unfolded sum.case]
    have "failed_evaluations d w w' = []" by blast
    with failed show ?thesis by simp
  qed
  from annotate_game_rows [OF run]
  consider "move_annotations_table w' = move_annotations_table w" "games_table w' = games_table w"
    | g board mainline answers k where
        "stored_game gid w = Some g" "\<not> analyzed g"
        "read_game d (pgn_of g) = Some (board, mainline)"
        "length answers = length mainline" "k \<le> length mainline"
        "move_annotations_table w' =
           move_annotations_table w @ take k (plies d gid board 1 mainline answers)"
        "if isl r then games_table w' = games_table w \<and> failed_requests d w w' \<noteq> []
         else k = length mainline \<and> games_table w' = map (set_analyzed gid) (games_table w)"
    by blast
  then have rows: "move_annotations_table w' = move_annotations_table w \<and>
        games_table w' = games_table w \<or>
      (\<exists>g board mainline answers k.
         stored_game gid w = Some g \<and> \<not> analyzed g \<and>
         read_game d (pgn_of g) = Some (board, mainline) \<and>
         length (plies d gid board 1 mainline answers) = length mainline \<and>
         k \<le> length mainline \<and>
         move_annotations_table w' =
           move_annotations_table w @ take k (plies d gid board 1 mainline answers) \<and>
         (if isl r then games_table w' = games_table w \<and> failed_requests d w w' \<noteq> []
          else k = length mainline \<and>
            games_table w' = map (set_analyzed gid) (games_table w)))"
  proof cases
    case 1
    then show ?thesis by simp
  next
    case 2
    from 2(4) have "length (plies d gid board 1 mainline answers) = length mainline"
      by (rule length_plies)
    with 2 have "stored_game gid w = Some g \<and> \<not> analyzed g \<and>
         read_game d (pgn_of g) = Some (board, mainline) \<and>
         length (plies d gid board 1 mainline answers) = length mainline \<and>
         k \<le> length mainline \<and>
         move_annotations_table w' =
           move_annotations_table w @ take k (plies d gid board 1 mainline answers) \<and>
         (if isl r then games_table w' = games_table w \<and> failed_requests d w w' \<noteq> []
          else k = length mainline \<and>
            games_table w' = map (set_analyzed gid) (games_table w))"
      by blast
    then show ?thesis by blast
  qed
  from engine rows show ?thesis by blast
qed

text \<open>
  The claim as stated fails when a request to the database raises between two
  insertions: with the third request raising, the game \<open>g1\<close> of two plies is left
  with the row of its first ply only, and its flag unset.
\<close>

theorem partial_annotation_set_counterexample:
  "read_game sample_db_fault ''1. e4 e5'' = Some ((True, []), [''e2e4'', ''e7e5'']) \<and>
   fst (annotate_game sample_db_fault ''g1'' ''u1'' sample_world) =
     Inl (HTTPException 500 ''Error annotating game: connection lost'') \<and>
   move_annotations_table sample_world = [] \<and>
   move_annotations_table (snd (annotate_game sample_db_fault ''g1'' ''u1'' sample_world)) =
     [hd sample_rows] \<and>
   games_table (snd (annotate_game sample_db_fault ''g1'' ''u1'' sample_world)) = sample_games"
  by (simp add: route_defs sample_defs fault_defs)

lemma sample_run_engine_fault:
  "annotate_game sample_engine_fault ''g1'' ''u1'' sample_world =
     (Inl (HTTPException 500 ''Error annotating game: engine timeout''), sample_world_engine_fault)"
  by (simp add: route_defs sample_defs fault_defs)

theorem annotate_game_persistence_witness:
  "annotate_game sample_engine_fault ''g1'' ''u1'' sample_world =
     (Inl (HTTPException 500 ''Error annotating game: engine timeout''), sample_world_engine_fault) \<and>
   failed_evaluations sample_engine_fault sample_world sample_world_engine_fault = [2] \<and>
   games_table sample_world_engine_fault = games_table sample_world \<and>
   move_annotations_table sample_world_engine_fault = move_annotations_table sample_world \<and>
   annotate_game sample_ok ''g1'' ''u1'' sample_world = (Inr sample_response, sample_world_annotated) \<and>
   move_annotations_table sample_world_annotated = move_annotations_table sample_world @ sample_rows \<and>
   games_table sample_world_annotated = map (set_analyzed ''g1'') (games_table sample_world)"
proof -
  have failed: "failed_evaluations sample_engine_fault sample_world sample_world_engine_fault = [2]"
    by (simp add: failed_evaluations_def sample_defs fault_defs upt_rec)
  from annotate_game_persistence [OF sample_run_engine_fault] failed
  have "games_table sample_world_engine_fault = games_table sample_world \<and>
      move_annotations_table sample_world_engine_fault = move_annotations_table sample_world"
    by simp
  moreover from annotate_game_persistence [OF sample_run]
  have "move_annotations_table sample_world_annotated =
      move_annotations_table sample_world @ sample_rows"
    by (simp add: sample_world_def sample_world_annotated_def)
  ultimately show ?thesis
    using sample_run_engine_fault sample_run failed
    by (simp add: sample_world_def sample_world_annotated_def)
qed

subsection \<open>Isolation of failures in the batch\<close>

text \<open>
  C6. \<^verbatim>\<open>process_unannotated_games\<close> fails exactly when its listing request raises.
  Otherwise it attempts every candidate of the listing, in order, each in the state
  its predecessors left, and returns the identifiers of the candidates whose call of
  \<^verbatim>\<open>annotate_game\<close> returned, with their number; a candidate whose call raised is left
  out, and the message of its failure is in the log when the batch ends. With no
  candidate the response is the count 0 and the empty list.
\<close>

theorem batch_isolates_failures:
  "(isl (fst (process_unannotated_games d limit uid w)) \<longleftrightarrow>
      execute_fails d (db_requests w) \<noteq> None) \<and>
   (execute_fails d (db_requests w) = None \<longrightarrow>
      fst (process_unannotated_games d limit uid w) =
        Inr \<lparr>processed_games =
               int (length (filter (succeeded d uid) (batch_attempts d limit uid w))),
             game_ids = map fst (filter (succeeded d uid) (batch_attempts d limit uid w))\<rparr> \<and>
      map fst (batch_attempts d limit uid w) = fst (select_unanalyzed limit w) \<and>
      (\<forall>attempt \<in> set (batch_attempts d limit uid w).
         \<forall>e. fst (annotate_game d (fst attempt) uid (snd attempt)) = Inl e \<longrightarrow>
           \<not> succeeded d uid attempt \<and>
           ''Error processing game '' @ fst attempt @ '': '' @ str_exn e
             \<in> set (error_log (snd (process_unannotated_games d limit uid w)))) \<and>
      (fst (select_unanalyzed limit w) = [] \<longrightarrow>
         fst (process_unannotated_games d limit uid w) =
           Inr \<lparr>processed_games = 0, game_ids = []\<rparr>))"
proof -
  have fails: "isl (fst (process_unannotated_games d limit uid w)) \<longleftrightarrow>
      execute_fails d (db_requests w) \<noteq> None"
    by (simp add: process_unannotated_games_eq split: option.splits)
  have ok: "fst (process_unannotated_games d limit uid w) =
        Inr \<lparr>processed_games =
               int (length (filter (succeeded d uid) (batch_attempts d limit uid w))),
             game_ids = map fst (filter (succeeded d uid) (batch_attempts d limit uid w))\<rparr>"
    and final: "snd (process_unannotated_games d limit uid w) =
        foldl (\<lambda>v gid. after_game d uid gid v) (w\<lparr>db_requests := Suc (db_requests w)\<rparr>)
          (fst (select_unanalyzed limit w))"
    if "execute_fails d (db_requests w) = None"
    using that by (simp_all add: process_unannotated_games_eq)
  have all: "map fst (batch_attempts d limit uid w) = fst (select_unanalyzed limit w)"
    by (simp add: batch_attempts_def)
  have logged: "\<not> succeeded d uid attempt \<and>
      ''Error processing game '' @ fst attempt @ '': '' @ str_exn e
        \<in> set (error_log (snd (process_unannotated_games d limit uid w)))"
    if "execute_fails d (db_requests w) = None"
      "attempt \<in> set (batch_attempts d limit uid w)"
      "fst (annotate_game d (fst attempt) uid (snd attempt)) = Inl e" for attempt e
  proof -
    from that(2) have "(fst attempt, snd attempt) \<in>
        set (zip (fst (select_unanalyzed limit w))
               (game_states d uid (fst (select_unanalyzed limit w))
                  (w\<lparr>db_requests := Suc (db_requests w)\<rparr>)))"
      by (simp add: batch_attempts_def)
    from failed_game_logged [OF this that(3)] that(3) show ?thesis
      by (simp add: final [OF that(1)] succeeded_def)
  qed
  have none: "fst (process_unannotated_games d limit uid w) =
      Inr \<lparr>processed_games = 0, game_ids = []\<rparr>"
    if "execute_fails d (db_requests w) = None" "fst (select_unanalyzed limit w) = []"
    using that by (simp add: process_unannotated_games_eq batch_attempts_def)
  from fails ok all logged none show ?thesis by blast
qed

theorem batch_isolates_failures_witness:
  "execute_fails sample_ok (db_requests sample_world) = None \<and>
   fst (select_unanalyzed 10 sample_world) = [''g1'', ''g2'', ''g3''] \<and>
   process_unannotated_games sample_ok 10 ''u1'' sample_world =
     (Inr \<lparr>processed_games = 2, game_ids = [''g1'', ''g3'']\<rparr>, sample_world_batch) \<and>
   map fst (batch_attempts sample_ok 10 ''u1'' sample_world) = [''g1'', ''g2'', ''g3''] \<and>
   map fst (filter (succeeded sample_ok ''u1'') (batch_attempts sample_ok 10 ''u1'' sample_world)) =
     [''g1'', ''g3''] \<and>
   ''Error processing game g2: 500: Error annotating game: 403: Unauthorized access to this game''
     \<in> set (error_log sample_world_batch)"
proof -
  have listing: "execute_fails sample_ok (db_requests sample_world) = None"
    by (simp add: sample_defs)
  have candidates: "fst (select_unanalyzed 10 sample_world) = [''g1'', ''g2'', ''g3'']"
    by (simp add: select_unanalyzed_def sample_defs)
  from batch_isolates_failures [of sample_ok 10 "''u1''" sample_world] listing candidates
  have "map fst (batch_attempts sample_ok 10 ''u1'' sample_world) = [''g1'', ''g2'', ''g3'']"
    "Inr \<lparr>processed_games = 2, game_ids = [''g1'', ''g3'']\<rparr> =
       Inr \<lparr>processed_games =
               int (length (filter (succeeded sample_ok ''u1'')
                      (batch_attempts sample_ok 10 ''u1'' sample_world))),
             game_ids = map fst (filter (succeeded sample_ok ''u1'')
                      (batch_attempts sample_ok 10 ''u1'' sample_world))\<rparr>"
    by (simp_all add: sample_batch)
  with listing candidates sample_batch show ?thesis
    by (simp add: sample_world_batch_def)
qed

subsection \<open>The batch and the games of other users\<close>

text \<open>
  C10. The batch lists candidates of every user. In a games table whose identifiers
  are pairwise distinct, a batch that returns has succeeded only on games of the
  requester: for every game of another user the call of \<^verbatim>\<open>annotate_game\<close> fails, its
  identifier is not in the returned list and its row, with its flag, is unchanged
  when the batch ends. Every returned identifier is that of a game of the requester
  that was not analyzed; the identifiers are distinct and the count is their number.
\<close>

theorem batch_succeeds_on_own_games_only:
  assumes keys: "distinct (map id_row (games_table w))"
    and run: "process_unannotated_games d limit uid w = (Inr response, w')"
  shows "(\<forall>g \<in> set (games_table w). user_id g \<noteq> uid \<longrightarrow>
            id_row g \<notin> set (game_ids response) \<and> g \<in> set (games_table w')) \<and>
         (\<forall>attempt \<in> set (batch_attempts d limit uid w).
            (\<exists>g \<in> set (games_table w). id_row g = fst attempt \<and> user_id g \<noteq> uid) \<longrightarrow>
            \<not> succeeded d uid attempt) \<and>
         (\<forall>gid \<in> set (game_ids response).
            \<exists>g \<in> set (games_table w). id_row g = gid \<and> user_id g = uid \<and> \<not> analyzed g) \<and>
         map id_row (games_table w') = map id_row (games_table w) \<and>
         distinct (game_ids response) \<and>
         processed_games response = int (length (game_ids response))"
proof -
  let ?w1 = "w\<lparr>db_requests := Suc (db_requests w)\<rparr>"
  let ?data = "fst (select_unanalyzed limit w)"
  let ?attempts = "batch_attempts d limit uid w"
  from run have listing: "execute_fails d (db_requests w) = None"
    by (cases "execute_fails d (db_requests w)") (simp_all add: process_unannotated_games_eq)
  with run have response: "response =
      \<lparr>processed_games = int (length (filter (succeeded d uid) ?attempts)),
       game_ids = map fst (filter (succeeded d uid) ?attempts)\<rparr>"
    and final: "w' = foldl (\<lambda>v gid. after_game d uid gid v) ?w1 ?data"
    by (simp_all add: process_unannotated_games_eq)
  have keys1: "distinct (map id_row (games_table ?w1))" using keys by simp
  from batch_flags [OF keys1, of uid d ?data] final
  have flags: "flags_set_for uid (games_table w) (games_table w')"
    and states: "\<And>v. v \<in> set (game_states d uid ?data ?w1) \<Longrightarrow>
      flags_set_for uid (games_table w) (games_table v)"
    by simp_all
  have own: "\<exists>g \<in> set (games_table w). id_row g = fst attempt \<and> user_id g = uid"
    if "attempt \<in> set ?attempts" "succeeded d uid attempt" for attempt
  proof -
    from that(1) have "(fst attempt, snd attempt) \<in> set (zip ?data (game_states d uid ?data ?w1))"
      by (simp add: batch_attempts_def)
    then have "snd attempt \<in> set (game_states d uid ?data ?w1)"
      by (rule set_zip_rightD)
    note related = states [OF this]
    obtain r v' where call: "annotate_game d (fst attempt) uid (snd attempt) = (r, v')"
      by (cases "annotate_game d (fst attempt) uid (snd attempt)")
    with that(2) obtain resp where "r = Inr resp"
      by (cases r) (simp_all add: succeeded_def)
    with call have "annotate_game d (fst attempt) uid (snd attempt) = (Inr resp, v')"
      by simp
    from annotate_game_owner [OF this] obtain g' where
      g': "stored_game (fst attempt) (snd attempt) = Some g'" "user_id g' = uid"
      by blast
    from stored_game_mem [OF g'(1)] have "g' \<in> set (games_table (snd attempt))"
      "id_row g' = fst attempt"
      by simp_all
    with flags_set_for_origin [OF related this(1)] g'(2) show ?thesis by auto
  qed
  have other: "\<not> succeeded d uid attempt"
    if "attempt \<in> set ?attempts" "g \<in> set (games_table w)" "id_row g = fst attempt"
      "user_id g \<noteq> uid" for attempt g
  proof
    assume "succeeded d uid attempt"
    from own [OF that(1) this] obtain h where
      h: "h \<in> set (games_table w)" "id_row h = fst attempt" "user_id h = uid"
      by blast
    from same_key [OF keys that(2) h(1)] that(3) h(2) have "g = h" by simp
    with that(4) h(3) show False by simp
  qed
  have ids: "set (game_ids response) = fst ` {a \<in> set ?attempts. succeeded d uid a}"
    by (simp add: response)
  have part1: "id_row g \<notin> set (game_ids response) \<and> g \<in> set (games_table w')"
    if "g \<in> set (games_table w)" "user_id g \<noteq> uid" for g
  proof -
    have "id_row g \<notin> set (game_ids response)"
    proof
      assume "id_row g \<in> set (game_ids response)"
      with ids obtain a where "a \<in> set ?attempts" "succeeded d uid a" "id_row g = fst a"
        by auto
      with other [OF this(1) that(1) this(3) that(2)] show False by simp
    qed
    moreover from flags_set_for_other [OF flags that] have "g \<in> set (games_table w')" .
    ultimately show ?thesis by simp
  qed
  have part3: "\<exists>g \<in> set (games_table w). id_row g = gid \<and> user_id g = uid \<and> \<not> analyzed g"
    if "gid \<in> set (game_ids response)" for gid
  proof -
    from that ids obtain a where a: "a \<in> set ?attempts" "succeeded d uid a" "gid = fst a"
      by auto
    from own [OF a(1,2)] a(3) obtain g where
      g: "g \<in> set (games_table w)" "id_row g = gid" "user_id g = uid"
      by auto
    from a(1) have "(fst a, snd a) \<in> set (zip ?data (game_states d uid ?data ?w1))"
      by (simp add: batch_attempts_def)
    then have "fst a \<in> set ?data" by (rule set_zip_leftD)
    with a(3) have "gid \<in> set ?data" by simp
    from batch_candidates [OF this] obtain h where
      h: "h \<in> set (games_table w)" "id_row h = gid" "\<not> analyzed h"
      by blast
    from same_key [OF keys g(1) h(1)] g(2) h(2) have "g = h" by simp
    with g h show ?thesis by blast
  qed
  have "map fst ?attempts = ?data" by (simp add: batch_attempts_def)
  with batch_candidates_distinct [OF keys, of limit] have "distinct (map fst ?attempts)"
    by simp
  then have part5: "distinct (game_ids response)"
    by (simp add: response distinct_map_filter)
  have part6: "processed_games response = int (length (game_ids response))"
    by (simp add: response)
  from part1 other part3 flags_set_for_ids [OF flags] part5 part6 show ?thesis
    by blast
qed

theorem batch_succeeds_on_own_games_only_witness:
  "distinct (map id_row (games_table sample_world)) \<and>
   process_unannotated_games sample_ok 10 ''u1'' sample_world =
     (Inr \<lparr>processed_games = 2, game_ids = [''g1'', ''g3'']\<rparr>, sample_world_batch) \<and>
   sample_games ! 1 \<in> set (games_table sample_world) \<and>
   user_id (sample_games ! 1) = ''u2'' \<and>
   id_row (sample_games ! 1) = ''g2'' \<and>
   analyzed (sample_games ! 1) = False \<and>
   ''g2'' \<notin> set (game_ids \<lparr>processed_games = 2, game_ids = [''g1'', ''g3'']\<rparr>) \<and>
   sample_games ! 1 \<in> set (games_table sample_world_batch)"
proof -
  have keys: "distinct (map id_row (games_table sample_world))"
    by (simp add: sample_world_def sample_games_def)
  have other: "sample_games ! 1 \<in> set (games_table sample_world)"
    "user_id (sample_games ! 1) \<noteq> ''u1''" "id_row (sample_games ! 1) = ''g2''"
    by (simp_all add: sample_world_def sample_games_def)
  from batch_succeeds_on_own_games_only [OF keys sample_batch] other
  have "''g2'' \<notin> set (game_ids \<lparr>processed_games = 2, game_ids = [''g1'', ''g3'']\<rparr>) \<and>
      sample_games ! 1 \<in> set (games_table sample_world_batch)"
    by metis
  with keys sample_batch other show ?thesis
    by (simp add: sample_games_def)
qed

end
